theory Spec2Isabelle
  imports Complex_Main "HOL-Library.Word" "HOL-Library.Log_Nat" "HOL-Library.Multiset"
begin

section \<open>Undefined behaviour and aborts as values\<close>

text \<open>
  The C program has three ways of not returning normally that matter here: an access
  outside a tensor and a data race between the threads of a parallel loop (both undefined
  behaviour in C), and a failing \<^verbatim>\<open>assert\<close>. All are results of the
  model.
\<close>

datatype error = Out_of_bounds | Assertion_failed | Data_race

definition bind_err :: "error + 'a \<Rightarrow> ('a \<Rightarrow> error + 'b) \<Rightarrow> error + 'b" where
  "bind_err r f = (case r of Inl e \<Rightarrow> Inl e | Inr v \<Rightarrow> f v)"

text \<open>
  \<^verbatim>\<open>for (i = 0; i < n; i++) body\<close> runs the body for the indices of a list, in
  order, threading the state, and stops at the first error.
\<close>

primrec for_loop :: "nat list \<Rightarrow> (nat \<Rightarrow> 's \<Rightarrow> error + 's) \<Rightarrow> 's \<Rightarrow> error + 's" where
  "for_loop [] body s = Inr s"
| "for_loop (i # is) body s = bind_err (body i s) (for_loop is body)"

definition upto_int :: "int \<Rightarrow> nat list" where
  \<comment> \<open>the values of \<^verbatim>\<open>i\<close> in \<^verbatim>\<open>for (i = 0; i < n; i++)\<close> for a C \<^verbatim>\<open>int n\<close>\<close>
  "upto_int n = [0..<nat n]"

section \<open>The floating-point arithmetic of the machine\<close>

text \<open>
  The program computes in \<^verbatim>\<open>float\<close> (type \<open>'f\<close>) and
  \<^verbatim>\<open>double\<close> (type \<open>'d\<close>). The operations of the machine are a
  parameter of the model, so that what is proved for every \<open>fpu\<close> holds for
  IEEE 754 arithmetic in particular. Expressions are evaluated in the type of their operands
  (\<^verbatim>\<open>FLT_EVAL_METHOD\<close> 0, as on x86-64 with SSE): a product of a
  \<^verbatim>\<open>float\<close> and an \<^verbatim>\<open>int16_t\<close> is a \<^verbatim>\<open>float\<close>
  product of the first and the converted second.
\<close>

record ('f, 'd) fpu =
  f_of_i16 :: "16 word \<Rightarrow> 'f"
  d_of_i16 :: "16 word \<Rightarrow> 'd"
  d_of_f :: "'f \<Rightarrow> 'd"
  f_of_d :: "'d \<Rightarrow> 'f"
  f_zero :: "'f"
  f_one :: "'f"
  d_zero :: "'d"
  d_epsilon :: "'d"
  f_mul :: "'f \<Rightarrow> 'f \<Rightarrow> 'f"
  f_add :: "'f \<Rightarrow> 'f \<Rightarrow> 'f"
  f_sub :: "'f \<Rightarrow> 'f \<Rightarrow> 'f"
  d_mul :: "'d \<Rightarrow> 'd \<Rightarrow> 'd"
  d_add :: "'d \<Rightarrow> 'd \<Rightarrow> 'd"
  d_fabs :: "'d \<Rightarrow> 'd"
  d_ge :: "'d \<Rightarrow> 'd \<Rightarrow> bool"
  d_gt :: "'d \<Rightarrow> 'd \<Rightarrow> bool"

subsection \<open>The SSE intrinsics the optimized routine uses\<close>

text \<open>
  Modelled from Intel's description of the intrinsics (the headers
  \<^verbatim>\<open>immintrin.h\<close> and \<^verbatim>\<open>x86intrin.h\<close> are not part of the
  repository). A \<^verbatim>\<open>__m128\<close> is four \<^verbatim>\<open>float\<close> lanes
  and a \<^verbatim>\<open>__m128d\<close> two \<^verbatim>\<open>double\<close> lanes, written
  from lane 0 upwards.
\<close>

type_synonym 'f m128 = "'f \<times> 'f \<times> 'f \<times> 'f"
type_synonym 'd m128d = "'d \<times> 'd"

definition mm_set_ps :: "'f \<Rightarrow> 'f \<Rightarrow> 'f \<Rightarrow> 'f \<Rightarrow> 'f m128" where
  "mm_set_ps e3 e2 e1 e0 = (e0, e1, e2, e3)"

definition mm_set1_ps :: "'f \<Rightarrow> 'f m128" where
  "mm_set1_ps a = (a, a, a, a)"

definition mm_mul_ps :: "('f, 'd) fpu \<Rightarrow> 'f m128 \<Rightarrow> 'f m128 \<Rightarrow> 'f m128" where
  "mm_mul_ps fp a b =
     (case a of (a0, a1, a2, a3) \<Rightarrow> case b of (b0, b1, b2, b3) \<Rightarrow>
        (f_mul fp a0 b0, f_mul fp a1 b1, f_mul fp a2 b2, f_mul fp a3 b3))"

definition mm_dp_ps :: "('f, 'd) fpu \<Rightarrow> 'f m128 \<Rightarrow> 'f m128 \<Rightarrow> 8 word \<Rightarrow> 'f m128" where
  \<comment> \<open>DPPS: the products the high four bits of the mask select, added as
      \<open>(t0 + t1) + (t2 + t3)\<close>, broadcast to the lanes the low four bits select\<close>
  "mm_dp_ps fp a b imm8 =
     (case a of (a0, a1, a2, a3) \<Rightarrow> case b of (b0, b1, b2, b3) \<Rightarrow>
        let t0 = (if bit imm8 4 then f_mul fp a0 b0 else f_zero fp);
            t1 = (if bit imm8 5 then f_mul fp a1 b1 else f_zero fp);
            t2 = (if bit imm8 6 then f_mul fp a2 b2 else f_zero fp);
            t3 = (if bit imm8 7 then f_mul fp a3 b3 else f_zero fp);
            s = f_add fp (f_add fp t0 t1) (f_add fp t2 t3)
        in (if bit imm8 0 then s else f_zero fp, if bit imm8 1 then s else f_zero fp,
            if bit imm8 2 then s else f_zero fp, if bit imm8 3 then s else f_zero fp))"

definition mm_cvtss_f32 :: "'f m128 \<Rightarrow> 'f" where
  "mm_cvtss_f32 a = fst a"

definition mm_set_pd :: "'d \<Rightarrow> 'd \<Rightarrow> 'd m128d" where
  "mm_set_pd e1 e0 = (e0, e1)"

definition mm_set_sd :: "('f, 'd) fpu \<Rightarrow> 'd \<Rightarrow> 'd m128d" where
  "mm_set_sd fp a = (a, d_zero fp)"

definition mm_mul_pd :: "('f, 'd) fpu \<Rightarrow> 'd m128d \<Rightarrow> 'd m128d \<Rightarrow> 'd m128d" where
  "mm_mul_pd fp a b = (d_mul fp (fst a) (fst b), d_mul fp (snd a) (snd b))"

definition mm_mul_sd :: "('f, 'd) fpu \<Rightarrow> 'd m128d \<Rightarrow> 'd m128d \<Rightarrow> 'd m128d" where
  "mm_mul_sd fp a b = (d_mul fp (fst a) (fst b), snd a)"

definition mm_add_pd :: "('f, 'd) fpu \<Rightarrow> 'd m128d \<Rightarrow> 'd m128d \<Rightarrow> 'd m128d" where
  "mm_add_pd fp a b = (d_add fp (fst a) (fst b), d_add fp (snd a) (snd b))"

definition mm_add_sd :: "('f, 'd) fpu \<Rightarrow> 'd m128d \<Rightarrow> 'd m128d \<Rightarrow> 'd m128d" where
  "mm_add_sd fp a b = (d_add fp (fst a) (fst b), snd a)"

definition mm_unpackhi_pd :: "'d m128d \<Rightarrow> 'd m128d \<Rightarrow> 'd m128d" where
  "mm_unpackhi_pd a b = (snd a, snd b)"

definition mm_store_sd :: "'d m128d \<Rightarrow> 'd" where
  "mm_store_sd a = fst a"

section \<open>Tensors\<close>

text \<open>
  \<^verbatim>\<open>new_empty_4d_matrix_float\<close> and
  \<^verbatim>\<open>new_empty_4d_matrix_int16\<close> allocate one contiguous buffer
  \<^verbatim>\<open>mat3\<close> of \<open>dim0 * dim1 * dim2 * dim3\<close> elements and tables of
  pointers into it, with
  \<^verbatim>\<open>result[i][j][k] = &mat3[i*dim1*dim2*dim3 + j*dim2*dim3 + k*dim3]\<close>.
  A 3d matrix is the 4d matrix with a first dimension of 1, without its first table.
  A tensor of the model is its dimensions and the buffer. An index outside its dimension
  is an out-of-bounds access of the model (the contract of the specification), also where
  C's flat buffer would still cover it. Index arithmetic is in unbounded integers: the
  model is of tensors whose element count fits C's \<^verbatim>\<open>int\<close>, as every tensor
  the allocator can return does.
\<close>

record 'a matrix3 =
  n0 :: nat
  n1 :: nat
  n2 :: nat
  cells3 :: "'a list"

record 'a matrix4 =
  k0 :: nat
  k1 :: nat
  k2 :: nat
  k3 :: nat
  cells4 :: "'a list"

definition wf3 :: "'a matrix3 \<Rightarrow> bool" where
  "wf3 a = (length (cells3 a) = n0 a * n1 a * n2 a)"

definition wf4 :: "'a matrix4 \<Rightarrow> bool" where
  "wf4 a = (length (cells4 a) = k0 a * k1 a * k2 a * k3 a)"

definition flat3 :: "'a matrix3 \<Rightarrow> int \<Rightarrow> int \<Rightarrow> int \<Rightarrow> int" where
  "flat3 a i j k = i * int (n1 a) * int (n2 a) + j * int (n2 a) + k"

definition flat4 :: "'a matrix4 \<Rightarrow> int \<Rightarrow> int \<Rightarrow> int \<Rightarrow> int \<Rightarrow> int" where
  "flat4 a i j k l =
     i * int (k1 a) * int (k2 a) * int (k3 a) + j * int (k2 a) * int (k3 a) + k * int (k3 a) + l"

definition inside3 :: "'a matrix3 \<Rightarrow> int \<Rightarrow> int \<Rightarrow> int \<Rightarrow> bool" where
  "inside3 a i j k =
     (0 \<le> i \<and> i < int (n0 a) \<and> 0 \<le> j \<and> j < int (n1 a) \<and> 0 \<le> k \<and> k < int (n2 a)
      \<and> 0 \<le> flat3 a i j k \<and> flat3 a i j k < int (length (cells3 a)))"

definition inside4 :: "'a matrix4 \<Rightarrow> int \<Rightarrow> int \<Rightarrow> int \<Rightarrow> int \<Rightarrow> bool" where
  "inside4 a i j k l =
     (0 \<le> i \<and> i < int (k0 a) \<and> 0 \<le> j \<and> j < int (k1 a) \<and> 0 \<le> k \<and> k < int (k2 a)
      \<and> 0 \<le> l \<and> l < int (k3 a)
      \<and> 0 \<le> flat4 a i j k l \<and> flat4 a i j k l < int (length (cells4 a)))"

definition at3 :: "'a matrix3 \<Rightarrow> int \<Rightarrow> int \<Rightarrow> int \<Rightarrow> error + 'a" where
  \<comment> \<open>the value of \<^verbatim>\<open>a[i][j][k]\<close>\<close>
  "at3 a i j k =
     (if inside3 a i j k then Inr (cells3 a ! nat (flat3 a i j k)) else Inl Out_of_bounds)"

definition at4 :: "'a matrix4 \<Rightarrow> int \<Rightarrow> int \<Rightarrow> int \<Rightarrow> int \<Rightarrow> error + 'a" where
  \<comment> \<open>the value of \<^verbatim>\<open>a[i][j][k][l]\<close>\<close>
  "at4 a i j k l =
     (if inside4 a i j k l then Inr (cells4 a ! nat (flat4 a i j k l)) else Inl Out_of_bounds)"

definition at_flat :: "'a list \<Rightarrow> int \<Rightarrow> error + 'a" where
  \<comment> \<open>the value of \<^verbatim>\<open>p[i]\<close> for a pointer \<^verbatim>\<open>p\<close> to the start of a buffer\<close>
  "at_flat xs i = (if 0 \<le> i \<and> i < int (length xs) then Inr (xs ! nat i) else Inl Out_of_bounds)"

section \<open>The state of one convolution call\<close>

text \<open>
  The three tensors a convolution is called with, and a log of the stores it has made: the
  flat index of the output cell of each, oldest first. The log is not in the C program; it
  makes "how often is a cell written" a question about the state.
\<close>

record 'f conv_state =
  image :: "'f matrix3"
  kernels :: "16 word matrix4"
  outp :: "'f matrix3"
  stores :: "nat list"

definition store_output :: "'f conv_state \<Rightarrow> nat \<Rightarrow> 'f \<Rightarrow> 'f conv_state" where
  "store_output st n v =
     st\<lparr>outp := (outp st)\<lparr>cells3 := (cells3 (outp st))[n := v]\<rparr>, stores := stores st @ [n]\<rparr>"

definition put3 :: "'f conv_state \<Rightarrow> int \<Rightarrow> int \<Rightarrow> int \<Rightarrow> 'f \<Rightarrow> error + 'f conv_state" where
  \<comment> \<open>\<^verbatim>\<open>output[i][j][k] = v\<close>\<close>
  "put3 st i j k v =
     (if inside3 (outp st) i j k then Inr (store_output st (nat (flat3 (outp st) i j k)) v)
      else Inl Out_of_bounds)"

definition put_flat :: "'f conv_state \<Rightarrow> int \<Rightarrow> 'f \<Rightarrow> error + 'f conv_state" where
  \<comment> \<open>\<^verbatim>\<open>output_pointer[i] = v\<close>\<close>
  "put_flat st i v =
     (if 0 \<le> i \<and> i < int (length (cells3 (outp st))) then Inr (store_output st (nat i) v)
      else Inl Out_of_bounds)"

section \<open>The reference convolution\<close>

text \<open>
  \<^verbatim>\<open>multichannel_conv\<close>, loop by loop. The store
  \<^verbatim>\<open>output[m][w][h] = (float)sum\<close> stands inside the loop over the channels,
  after the loops over \<open>x\<close> and \<open>y\<close>.
\<close>

definition mc_tap ::
  "('f, 'd) fpu \<Rightarrow> 'f conv_state \<Rightarrow> nat \<Rightarrow> nat \<Rightarrow> nat \<Rightarrow> nat \<Rightarrow> nat \<Rightarrow> nat \<Rightarrow> 'd \<Rightarrow> error + 'd" where
  \<comment> \<open>\<^verbatim>\<open>sum += image[w + x][h + y][c] * kernels[m][c][x][y]\<close>\<close>
  "mc_tap fp st m w h c x y s =
     bind_err (at3 (image st) (int w + int x) (int h + int y) (int c)) (\<lambda>a.
     bind_err (at4 (kernels st) (int m) (int c) (int x) (int y)) (\<lambda>k.
       Inr (d_add fp s (d_of_f fp (f_mul fp a (f_of_i16 fp k))))))"

definition mc_window ::
  "('f, 'd) fpu \<Rightarrow> 'f conv_state \<Rightarrow> int \<Rightarrow> nat \<Rightarrow> nat \<Rightarrow> nat \<Rightarrow> nat \<Rightarrow> 'd \<Rightarrow> error + 'd" where
  "mc_window fp st kernel_order m w h c =
     for_loop (upto_int kernel_order) (\<lambda>x.
       for_loop (upto_int kernel_order) (\<lambda>y. mc_tap fp st m w h c x y))"

definition mc_channel ::
  "('f, 'd) fpu \<Rightarrow> int \<Rightarrow> nat \<Rightarrow> nat \<Rightarrow> nat \<Rightarrow> nat \<Rightarrow> 'd \<times> 'f conv_state
     \<Rightarrow> error + 'd \<times> 'f conv_state" where
  "mc_channel fp kernel_order m w h c acc =
     (case acc of (s, st) \<Rightarrow>
        bind_err (mc_window fp st kernel_order m w h c s) (\<lambda>s'.
        bind_err (put3 st (int m) (int w) (int h) (f_of_d fp s')) (\<lambda>st'.
          Inr (s', st'))))"

definition mc_cell ::
  "('f, 'd) fpu \<Rightarrow> int \<Rightarrow> int \<Rightarrow> nat \<Rightarrow> nat \<Rightarrow> nat \<Rightarrow> 'f conv_state \<Rightarrow> error + 'f conv_state" where
  "mc_cell fp nchannels kernel_order m w h st =
     bind_err (for_loop (upto_int nchannels) (mc_channel fp kernel_order m w h) (d_zero fp, st))
       (\<lambda>acc. Inr (snd acc))"

definition multichannel_conv ::
  "('f, 'd) fpu \<Rightarrow> 'f conv_state \<Rightarrow> int \<Rightarrow> int \<Rightarrow> int \<Rightarrow> int \<Rightarrow> int \<Rightarrow> error + 'f conv_state" where
  "multichannel_conv fp st width height nchannels nkernels kernel_order =
     for_loop (upto_int nkernels) (\<lambda>m.
       for_loop (upto_int width) (\<lambda>w.
         for_loop (upto_int height) (\<lambda>h.
           mc_cell fp nchannels kernel_order m w h))) st"

section \<open>The optimized convolution\<close>

text \<open>
  The program is meant to be built with OpenMP (it includes \<^verbatim>\<open>omp.h\<close> and
  carries two \<^verbatim>\<open>#pragma omp parallel for\<close>); a compiler without OpenMP
  ignores the pragmas. The model takes the build as a parameter.

  In the OpenMP build, \<^verbatim>\<open>#pragma omp parallel for private(x, sum)\<close> on the
  loop of the branch for \<open>kernel_order = 1\<close> gives that loop a \<^verbatim>\<open>sum\<close>
  of its own: a new variable whose initial value is undetermined (the second argument
  of \<open>OpenMP\<close>) and whose final value is dropped when the loop ends. The
  \<^verbatim>\<open>sum\<close> of the cell is neither read nor written by the loop.

  \<^verbatim>\<open>#pragma omp parallel for\<close> on the loop over \<^verbatim>\<open>m\<close> has no
  \<^verbatim>\<open>private\<close> clause. \<^verbatim>\<open>w\<close>, \<^verbatim>\<open>h\<close>,
  \<^verbatim>\<open>x\<close>, \<^verbatim>\<open>y\<close>, \<^verbatim>\<open>c\<close>,
  \<^verbatim>\<open>m_index\<close>, \<^verbatim>\<open>x_index\<close>, \<^verbatim>\<open>mo_index\<close>,
  \<^verbatim>\<open>w_index\<close> and \<^verbatim>\<open>h_index\<close> are declared at the head of the
  function, so the threads of the team share them; only \<^verbatim>\<open>m\<close> is private.
  Every iteration begins by writing \<^verbatim>\<open>mo_index\<close>,
  \<^verbatim>\<open>m_index\<close> and \<^verbatim>\<open>w\<close>. When the team has two threads or
  more and the loop has two iterations or more, two threads each run an iteration (the
  iterations are divided among the threads) and write these variables without
  synchronization: a data race, after which the behaviour of the program is undefined.
  The model returns the error \<open>Data_race\<close> for such a run. In every other run one
  thread runs all the iterations, in the order of the index.

  The loop of the branch for \<open>kernel_order = 1\<close> has one iteration, so its own
  parallel region has no race, whatever its team.

  The OpenMP build carries the number of threads of the team of the loop over
  \<^verbatim>\<open>m\<close> and the undetermined initial value of the private
  \<^verbatim>\<open>sum\<close>.
\<close>

datatype 'd build = Serial | OpenMP nat 'd

definition data_race :: "'d build \<Rightarrow> int \<Rightarrow> bool" where
  \<comment> \<open>two threads run iterations of \<^verbatim>\<open>for (m = 0; m < nkernels; m++)\<close>\<close>
  "data_race bld nkernels =
     (case bld of Serial \<Rightarrow> False | OpenMP threads private_sum \<Rightarrow> 2 \<le> threads \<and> 2 \<le> nkernels)"

definition sc_row1 ::
  "('f, 'd) fpu \<Rightarrow> 'f conv_state \<Rightarrow> int \<Rightarrow> int \<Rightarrow> nat \<Rightarrow> nat \<Rightarrow> nat \<Rightarrow> nat \<Rightarrow> 'd \<Rightarrow> error + 'd" where
  \<comment> \<open>\<^verbatim>\<open>sum += image[w + x][h][c] * kernel_pointer[x_index]\<close>\<close>
  "sc_row1 fp st kernel_order c_index w h c x s =
     (let x_index = int x * kernel_order + c_index in
      bind_err (at3 (image st) (int w + int x) (int h) (int c)) (\<lambda>a.
      bind_err (at_flat (cells4 (kernels st)) x_index) (\<lambda>k.
        Inr (d_add fp s (d_of_f fp (f_mul fp a (f_of_i16 fp k)))))))"

definition sc_row3 ::
  "('f, 'd) fpu \<Rightarrow> 'f conv_state \<Rightarrow> int \<Rightarrow> int \<Rightarrow> nat \<Rightarrow> nat \<Rightarrow> nat \<Rightarrow> nat \<Rightarrow> 'd \<Rightarrow> error + 'd" where
  "sc_row3 fp st kernel_order c_index w h c x s =
     (let x_index = int x * kernel_order + c_index in
      bind_err (at3 (image st) (int w + int x) (int h + 2) (int c)) (\<lambda>i2.
      bind_err (at3 (image st) (int w + int x) (int h + 1) (int c)) (\<lambda>i1.
      bind_err (at3 (image st) (int w + int x) (int h) (int c)) (\<lambda>i0.
      bind_err (at_flat (cells4 (kernels st)) (2 + x_index)) (\<lambda>k2.
      bind_err (at_flat (cells4 (kernels st)) (1 + x_index)) (\<lambda>k1.
      bind_err (at_flat (cells4 (kernels st)) x_index) (\<lambda>k0.
        let img = mm_set_ps (f_zero fp) i2 i1 i0;
            kern = mm_set_ps (f_zero fp) (f_of_i16 fp k2) (f_of_i16 fp k1) (f_of_i16 fp k0);
            mul = mm_mul_ps fp img kern
        in Inr (d_add fp s
                 (d_of_f fp (mm_cvtss_f32 (mm_dp_ps fp mul (mm_set1_ps (f_one fp)) 0x71)))))))))))"

definition sc_row5 ::
  "('f, 'd) fpu \<Rightarrow> 'f conv_state \<Rightarrow> int \<Rightarrow> int \<Rightarrow> nat \<Rightarrow> nat \<Rightarrow> nat \<Rightarrow> nat \<Rightarrow> 'd \<Rightarrow> error + 'd" where
  "sc_row5 fp st kernel_order c_index w h c x s =
     (let x_index = int x * kernel_order + c_index in
      bind_err (at3 (image st) (int w + int x) (int h + 4) (int c)) (\<lambda>i4.
      bind_err (at3 (image st) (int w + int x) (int h + 3) (int c)) (\<lambda>i3.
      bind_err (at3 (image st) (int w + int x) (int h + 2) (int c)) (\<lambda>i2.
      bind_err (at3 (image st) (int w + int x) (int h + 1) (int c)) (\<lambda>i1.
      bind_err (at3 (image st) (int w + int x) (int h) (int c)) (\<lambda>i0.
      bind_err (at_flat (cells4 (kernels st)) (4 + x_index)) (\<lambda>k4.
      bind_err (at_flat (cells4 (kernels st)) (3 + x_index)) (\<lambda>k3.
      bind_err (at_flat (cells4 (kernels st)) (2 + x_index)) (\<lambda>k2.
      bind_err (at_flat (cells4 (kernels st)) (1 + x_index)) (\<lambda>k1.
      bind_err (at_flat (cells4 (kernels st)) x_index) (\<lambda>k0.
        let img1 = mm_set_pd (d_of_f fp i4) (d_of_f fp i3);
            img2 = mm_set_pd (d_of_f fp i2) (d_of_f fp i1);
            img3 = mm_set_sd fp (d_of_f fp i0);
            kern1 = mm_set_pd (d_of_i16 fp k4) (d_of_i16 fp k3);
            kern2 = mm_set_pd (d_of_i16 fp k2) (d_of_i16 fp k1);
            kern3 = mm_set_sd fp (d_of_i16 fp k0);
            mul1 = mm_mul_pd fp img1 kern1;
            mul2 = mm_mul_pd fp img2 kern2;
            mul3 = mm_mul_sd fp img3 kern3;
            sum2_1 = mm_add_pd fp mul1 mul2;
            sum2_2 = mm_add_sd fp mul3 (mm_unpackhi_pd sum2_1 sum2_1);
            sum2_1' = mm_add_sd fp sum2_1 sum2_2;
            temp = mm_store_sd sum2_1'
        in Inr (d_add fp s temp))))))))))))"

definition sc_mac ::
  "('f, 'd) fpu \<Rightarrow> 'f conv_state \<Rightarrow> int \<Rightarrow> int \<Rightarrow> int \<Rightarrow> int \<Rightarrow> 'd \<Rightarrow> error + 'd" where
  \<comment> \<open>\<^verbatim>\<open>sum += image[i][j][c] * kernel_pointer[n]\<close>\<close>
  "sc_mac fp st i j c n s =
     bind_err (at3 (image st) i j c) (\<lambda>a.
     bind_err (at_flat (cells4 (kernels st)) n) (\<lambda>k.
       Inr (d_add fp s (d_of_f fp (f_mul fp a (f_of_i16 fp k))))))"

definition sc_row7 ::
  "('f, 'd) fpu \<Rightarrow> 'f conv_state \<Rightarrow> int \<Rightarrow> int \<Rightarrow> nat \<Rightarrow> nat \<Rightarrow> nat \<Rightarrow> nat \<Rightarrow> 'd \<Rightarrow> error + 'd" where
  "sc_row7 fp st kernel_order c_index w h c x s =
     (let x_index = int x * kernel_order + c_index in
      bind_err (sc_mac fp st (int w + int x) (int h) (int c) x_index s) (\<lambda>s.
      bind_err (sc_mac fp st (int w + int x) (int h + 1) (int c) (1 + x_index) s) (\<lambda>s.
      bind_err (sc_mac fp st (int w + int x) (int h + 2) (int c) (2 + x_index) s) (\<lambda>s.
      bind_err (sc_mac fp st (int w + int x) (int h + 3) (int c) (3 + x_index) s) (\<lambda>s.
      bind_err (sc_mac fp st (int w + int x) (int h + 4) (int c) (4 + x_index) s) (\<lambda>s.
      bind_err (sc_mac fp st (int w + int x) (int h + 5) (int c) (5 + x_index) s) (\<lambda>s.
      sc_mac fp st (int w + int x) (int h + 6) (int c) (6 + x_index) s)))))))"

definition sc_channel ::
  "('f, 'd) fpu \<Rightarrow> 'd build \<Rightarrow> 'f conv_state \<Rightarrow> int \<Rightarrow> int \<Rightarrow> int \<Rightarrow> nat \<Rightarrow> nat \<Rightarrow> nat \<Rightarrow> 'd
     \<Rightarrow> error + 'd" where
  "sc_channel fp bld st kernel_order kernel_order_squared m_index w h c s =
     (let c_index = int c * kernel_order_squared + m_index in
      if kernel_order = 1 then
        (case bld of
           Serial \<Rightarrow> for_loop (upto_int kernel_order) (sc_row1 fp st kernel_order c_index w h c) s
         | OpenMP threads private_sum \<Rightarrow>
             bind_err
               (for_loop (upto_int kernel_order) (sc_row1 fp st kernel_order c_index w h c)
                  private_sum)
               (\<lambda>_. Inr s))
      else if kernel_order = 3 then
        for_loop (upto_int kernel_order) (sc_row3 fp st kernel_order c_index w h c) s
      else if kernel_order = 5 then
        for_loop (upto_int kernel_order) (sc_row5 fp st kernel_order c_index w h c) s
      else if kernel_order = 7 then
        for_loop (upto_int kernel_order) (sc_row7 fp st kernel_order c_index w h c) s
      else Inr s)"

definition sc_cell ::
  "('f, 'd) fpu \<Rightarrow> 'd build \<Rightarrow> int \<Rightarrow> int \<Rightarrow> int \<Rightarrow> int \<Rightarrow> int \<Rightarrow> nat \<Rightarrow> nat \<Rightarrow> 'f conv_state
     \<Rightarrow> error + 'f conv_state" where
  "sc_cell fp bld nchannels kernel_order kernel_order_squared m_index h_index w h st =
     bind_err
       (for_loop (upto_int nchannels)
          (sc_channel fp bld st kernel_order kernel_order_squared m_index w h) (d_zero fp))
       (\<lambda>s. put_flat st h_index (f_of_d fp s))"

definition pointers_ok :: "'f conv_state \<Rightarrow> bool" where
  \<comment> \<open>\<^verbatim>\<open>***kernels\<close> and \<^verbatim>\<open>**output\<close> read the first entries of the
      pointer tables, which exist when the outer dimensions are positive\<close>
  "pointers_ok st =
     (0 < k0 (kernels st) \<and> 0 < k1 (kernels st) \<and> 0 < k2 (kernels st)
      \<and> 0 < n0 (outp st) \<and> 0 < n1 (outp st))"

definition student_conv ::
  "('f, 'd) fpu \<Rightarrow> 'd build \<Rightarrow> 'f conv_state \<Rightarrow> int \<Rightarrow> int \<Rightarrow> int \<Rightarrow> int \<Rightarrow> int
     \<Rightarrow> error + 'f conv_state" where
  "student_conv fp bld st width height nchannels nkernels kernel_order =
     (if \<not> pointers_ok st then Inl Out_of_bounds
      else if data_race bld nkernels then Inl Data_race
      else
        let kernel_order_squared = kernel_order * kernel_order;
            m_mult = kernel_order_squared * nchannels;
            mo_mult = width * height
        in for_loop (upto_int nkernels) (\<lambda>m.
             let mo_index = int m * mo_mult; m_index = int m * m_mult in
             for_loop (upto_int width) (\<lambda>w.
               let w_index = int w * height + mo_index in
               for_loop (upto_int height) (\<lambda>h.
                 let h_index = int h + w_index in
                 sc_cell fp bld nchannels kernel_order kernel_order_squared m_index h_index w h)))
             st)"

section \<open>The equivalence checker\<close>

datatype verdict = Acceptable | Suspect

definition cr_cell ::
  "('f, 'd) fpu \<Rightarrow> 'f matrix3 \<Rightarrow> 'f matrix3 \<Rightarrow> nat \<Rightarrow> nat \<Rightarrow> nat \<Rightarrow> 'd \<Rightarrow> error + 'd" where
  \<comment> \<open>the body of the innermost loop: the difference is a \<^verbatim>\<open>float\<close>
      subtraction, widened for \<^verbatim>\<open>fabs\<close>\<close>
  "cr_cell fp result control i j k s =
     bind_err (at3 control (int i) (int j) (int k)) (\<lambda>c.
     bind_err (at3 result (int i) (int j) (int k)) (\<lambda>r.
       let diff = d_fabs fp (d_of_f fp (f_sub fp c r)) in
       if d_ge fp diff (d_zero fp) then Inr (d_add fp s diff) else Inl Assertion_failed))"

definition check_result ::
  "('f, 'd) fpu \<Rightarrow> 'f matrix3 \<Rightarrow> 'f matrix3 \<Rightarrow> int \<Rightarrow> int \<Rightarrow> int \<Rightarrow> error + 'd \<times> verdict" where
  \<comment> \<open>returns the sum and which of the two messages is printed\<close>
  "check_result fp result control dim0 dim1 dim2 =
     bind_err
       (for_loop (upto_int dim0) (\<lambda>i.
          for_loop (upto_int dim1) (\<lambda>j.
            for_loop (upto_int dim2) (\<lambda>k. cr_cell fp result control i j k))) (d_zero fp))
       (\<lambda>sum_abs_diff.
          Inr (sum_abs_diff,
               if d_gt fp sum_abs_diff (d_epsilon fp) then Suspect else Acceptable))"

section \<open>The driver\<close>





section \<open>IEEE 754 arithmetic\<close>

text \<open>
  The values of binary32 and binary64 as rationals, the two infinities and NaN; the two
  zeros are one value (nothing in the program tells them apart: it neither divides nor
  prints a tensor). An operation is the exact operation on rationals followed by rounding
  to nearest, ties to even, into the format: precision \<open>p\<close>, largest exponent
  \<open>emax\<close>, smallest \<open>1 - emax\<close>, with subnormal numbers and overflow to
  infinity.
\<close>

datatype ieee = Finite rat | PlusInf | MinusInf | NaN

definition pow2 :: "int \<Rightarrow> rat" where
  "pow2 e = (if 0 \<le> e then 2 ^ nat e else 1 / 2 ^ nat (- e))"

definition flog2 :: "rat \<Rightarrow> int" where
  \<comment> \<open>the \<open>e\<close> with \<open>2\<^sup>e \<le> q < 2\<^sup>e\<^sup>+\<^sup>1\<close>, for positive \<open>q\<close>\<close>
  "flog2 q = (if 1 \<le> q then bitlen \<lfloor>q\<rfloor> - 1 else - bitlen (\<lceil>1 / q\<rceil> - 1))"

definition rne :: "rat \<Rightarrow> int" where
  \<comment> \<open>the nearest integer, the even one of two\<close>
  "rne r =
     (let f = \<lfloor>r\<rfloor>; d = r - of_int f in
      if d < 1 / 2 then f else if 1 / 2 < d then f + 1 else if even f then f else f + 1)"

definition round_to :: "nat \<Rightarrow> int \<Rightarrow> rat \<Rightarrow> ieee" where
  "round_to p emax q =
     (if q = 0 then Finite 0
      else
        let e = max (flog2 \<bar>q\<bar>) (1 - emax);
            u = pow2 (e - int p + 1);
            v = of_int (rne (q / u)) * u
        in if pow2 (emax + 1) \<le> \<bar>v\<bar> then (if 0 < q then PlusInf else MinusInf) else Finite v)"

definition round32 :: "rat \<Rightarrow> ieee" where
  "round32 = round_to 24 127"

definition round64 :: "rat \<Rightarrow> ieee" where
  "round64 = round_to 53 1023"

fun ieee_neg :: "ieee \<Rightarrow> ieee" where
  "ieee_neg (Finite a) = Finite (- a)"
| "ieee_neg PlusInf = MinusInf"
| "ieee_neg MinusInf = PlusInf"
| "ieee_neg NaN = NaN"

fun ieee_abs :: "ieee \<Rightarrow> ieee" where
  "ieee_abs (Finite a) = Finite \<bar>a\<bar>"
| "ieee_abs PlusInf = PlusInf"
| "ieee_abs MinusInf = PlusInf"
| "ieee_abs NaN = NaN"

fun ieee_add :: "(rat \<Rightarrow> ieee) \<Rightarrow> ieee \<Rightarrow> ieee \<Rightarrow> ieee" where
  "ieee_add r (Finite a) (Finite b) = r (a + b)"
| "ieee_add r NaN y = NaN"
| "ieee_add r x NaN = NaN"
| "ieee_add r PlusInf MinusInf = NaN"
| "ieee_add r MinusInf PlusInf = NaN"
| "ieee_add r PlusInf y = PlusInf"
| "ieee_add r MinusInf y = MinusInf"
| "ieee_add r x PlusInf = PlusInf"
| "ieee_add r x MinusInf = MinusInf"

fun ieee_negative :: "ieee \<Rightarrow> bool" where
  "ieee_negative (Finite a) = (a < 0)"
| "ieee_negative PlusInf = False"
| "ieee_negative MinusInf = True"
| "ieee_negative NaN = False"

fun ieee_mul :: "(rat \<Rightarrow> ieee) \<Rightarrow> ieee \<Rightarrow> ieee \<Rightarrow> ieee" where
  "ieee_mul r (Finite a) (Finite b) = r (a * b)"
| "ieee_mul r NaN y = NaN"
| "ieee_mul r x NaN = NaN"
| "ieee_mul r x y =
     (if x = Finite 0 \<or> y = Finite 0 then NaN
      else if ieee_negative x = ieee_negative y then PlusInf else MinusInf)"

fun ieee_le :: "ieee \<Rightarrow> ieee \<Rightarrow> bool" where
  "ieee_le (Finite a) (Finite b) = (a \<le> b)"
| "ieee_le NaN y = False"
| "ieee_le x NaN = False"
| "ieee_le MinusInf y = True"
| "ieee_le x PlusInf = True"
| "ieee_le x y = False"

fun ieee_narrow :: "ieee \<Rightarrow> ieee" where
  "ieee_narrow (Finite a) = round32 a"
| "ieee_narrow x = x"

definition ieee_fpu :: "(ieee, ieee) fpu" where
  "ieee_fpu = \<lparr>
     f_of_i16 = (\<lambda>k. Finite (of_int (sint k))),
     d_of_i16 = (\<lambda>k. Finite (of_int (sint k))),
     d_of_f = (\<lambda>x. x),
     f_of_d = ieee_narrow,
     f_zero = Finite 0,
     f_one = Finite 1,
     d_zero = Finite 0,
     d_epsilon = Finite (1 / 16),
     f_mul = ieee_mul round32,
     f_add = ieee_add round32,
     f_sub = (\<lambda>x y. ieee_add round32 x (ieee_neg y)),
     d_mul = ieee_mul round64,
     d_add = ieee_add round64,
     d_fabs = ieee_abs,
     d_ge = (\<lambda>x y. ieee_le y x),
     d_gt = (\<lambda>x y. ieee_le y x \<and> \<not> ieee_le x y)\<rparr>"

section \<open>Descriptions used in the proofs\<close>

text \<open>
  None of the definitions of this section is part of the program. \<open>valid_call\<close> is
  the contract of the two convolutions: positive dimensions, a kernel order of 1, 3, 5 or 7,
  and the three tensors allocated as \<^verbatim>\<open>main\<close> allocates them. \<open>img\<close> and
  \<open>ker\<close> read a cell that is inside its tensor; \<open>tap\<close> is one product of the
  reference and \<open>ref_val\<close> the sum the reference forms for one cell. \<open>filled\<close>
  is the state after the first \<open>n\<close> cells of the output have been given their values;
  \<open>written\<close> the state after \<open>c\<close> stores into one cell.
\<close>

definition filled :: "(nat \<Rightarrow> 'f) \<Rightarrow> (nat \<Rightarrow> nat list) \<Rightarrow> nat \<Rightarrow> 'f conv_state \<Rightarrow> 'f conv_state" where
  "filled f lg n st =
     st\<lparr>outp := (outp st)\<lparr>cells3 := map f [0..<n] @ drop n (cells3 (outp st))\<rparr>,
        stores := stores st @ lg n\<rparr>"

definition stu_sum ::
  "('f, 'd) fpu \<Rightarrow> 'd build \<Rightarrow> 'f conv_state \<Rightarrow> int \<Rightarrow> int \<Rightarrow> nat \<Rightarrow> nat \<Rightarrow> nat \<Rightarrow> error + 'd" where
  "stu_sum fp bld st nchannels kernel_order m w h =
     for_loop (upto_int nchannels)
       (sc_channel fp bld st kernel_order (kernel_order * kernel_order)
          (int m * (kernel_order * kernel_order * nchannels)) w h) (d_zero fp)"

definition ref_sum ::
  "('f, 'd) fpu \<Rightarrow> 'f conv_state \<Rightarrow> int \<Rightarrow> int \<Rightarrow> nat \<Rightarrow> nat \<Rightarrow> nat \<Rightarrow> error + 'd" where
  "ref_sum fp st nchannels kernel_order m w h =
     for_loop (upto_int nchannels) (mc_window fp st kernel_order m w h) (d_zero fp)"

definition written :: "'f conv_state \<Rightarrow> nat \<Rightarrow> nat \<Rightarrow> 'f \<Rightarrow> 'f conv_state" where
  "written st n c x =
     (if c = 0 then st
      else st\<lparr>outp := (outp st)\<lparr>cells3 := (cells3 (outp st))[n := x]\<rparr>,
              stores := stores st @ replicate c n\<rparr>)"

definition valid_call :: "'f conv_state \<Rightarrow> int \<Rightarrow> int \<Rightarrow> int \<Rightarrow> int \<Rightarrow> int \<Rightarrow> bool" where
  "valid_call st width height nchannels nkernels kernel_order =
     (0 < width \<and> 0 < height \<and> 0 < nchannels \<and> 0 < nkernels
      \<and> kernel_order \<in> {1, 3, 5, 7}
      \<and> wf3 (image st) \<and> n0 (image st) = nat (width + kernel_order)
      \<and> n1 (image st) = nat (height + kernel_order) \<and> n2 (image st) = nat nchannels
      \<and> wf4 (kernels st) \<and> k0 (kernels st) = nat nkernels \<and> k1 (kernels st) = nat nchannels
      \<and> k2 (kernels st) = nat kernel_order \<and> k3 (kernels st) = nat kernel_order
      \<and> wf3 (outp st) \<and> n0 (outp st) = nat nkernels \<and> n1 (outp st) = nat width
      \<and> n2 (outp st) = nat height)"

definition img :: "'f conv_state \<Rightarrow> nat \<Rightarrow> nat \<Rightarrow> nat \<Rightarrow> 'f" where
  "img st i j c =
     cells3 (image st) ! (i * n1 (image st) * n2 (image st) + j * n2 (image st) + c)"

definition ker :: "'f conv_state \<Rightarrow> nat \<Rightarrow> nat \<Rightarrow> nat \<Rightarrow> nat \<Rightarrow> 16 word" where
  "ker st m c x y =
     cells4 (kernels st)
       ! (m * k1 (kernels st) * k2 (kernels st) * k3 (kernels st)
          + c * k2 (kernels st) * k3 (kernels st) + x * k3 (kernels st) + y)"

definition tap :: "('f, 'd) fpu \<Rightarrow> 'f conv_state \<Rightarrow> nat \<Rightarrow> nat \<Rightarrow> nat \<Rightarrow> nat \<Rightarrow> nat \<Rightarrow> nat \<Rightarrow> 'd" where
  "tap fp st m w h c x y =
     d_of_f fp (f_mul fp (img st (w + x) (h + y) c) (f_of_i16 fp (ker st m c x y)))"

definition ref_val ::
  "('f, 'd) fpu \<Rightarrow> 'f conv_state \<Rightarrow> nat \<Rightarrow> nat \<Rightarrow> nat \<Rightarrow> nat \<Rightarrow> nat \<Rightarrow> 'd" where
  "ref_val fp st C K m w h =
     fold (\<lambda>c. fold (\<lambda>x. fold (\<lambda>y s. d_add fp s (tap fp st m w h c x y)) [0..<K]) [0..<K])
       [0..<C] (d_zero fp)"

definition cell_of :: "nat \<Rightarrow> nat \<Rightarrow> nat \<Rightarrow> nat \<times> nat \<times> nat" where
  "cell_of W H n = (n div (W * H), n div H mod W, n mod H)"


definition ones_input :: "nat \<Rightarrow> ieee conv_state" where
  \<comment> \<open>a single output cell, one channel, one kernel of order \<open>K\<close>, all elements one;
      the output cell holds NaN before the call\<close>
  "ones_input K =
     \<lparr>image = \<lparr>n0 = 1 + K, n1 = 1 + K, n2 = 1, cells3 = replicate ((1 + K) * (1 + K)) (Finite 1)\<rparr>,
      kernels = \<lparr>k0 = 1, k1 = 1, k2 = K, k3 = K, cells4 = replicate (K * K) 1\<rparr>,
      outp = \<lparr>n0 = 1, n1 = 1, n2 = 1, cells3 = [NaN]\<rparr>,
      stores = []\<rparr>"

definition row3_val ::
  "('f, 'd) fpu \<Rightarrow> 'f conv_state \<Rightarrow> nat \<Rightarrow> nat \<Rightarrow> nat \<Rightarrow> nat \<Rightarrow> nat \<Rightarrow> 'd" where
  "row3_val fp st m w h c x =
     d_of_f fp
       (f_add fp
          (f_add fp
             (f_mul fp (f_mul fp (img st (w + x) h c) (f_of_i16 fp (ker st m c x 0))) (f_one fp))
             (f_mul fp (f_mul fp (img st (w + x) (h + 1) c) (f_of_i16 fp (ker st m c x 1)))
                (f_one fp)))
          (f_add fp
             (f_mul fp (f_mul fp (img st (w + x) (h + 2) c) (f_of_i16 fp (ker st m c x 2)))
                (f_one fp))
             (f_zero fp)))"

definition row5_val ::
  "('f, 'd) fpu \<Rightarrow> 'f conv_state \<Rightarrow> nat \<Rightarrow> nat \<Rightarrow> nat \<Rightarrow> nat \<Rightarrow> nat \<Rightarrow> 'd" where
  "row5_val fp st m w h c x =
     (let p = (\<lambda>y. d_mul fp (d_of_f fp (img st (w + x) (h + y) c)) (d_of_i16 fp (ker st m c x y)))
      in d_add fp (d_add fp (p 3) (p 1)) (d_add fp (p 0) (d_add fp (p 4) (p 2))))"

definition stu_val ::
  "('f, 'd) fpu \<Rightarrow> 'd build \<Rightarrow> 'f conv_state \<Rightarrow> nat \<Rightarrow> nat \<Rightarrow> nat \<Rightarrow> nat \<Rightarrow> nat \<Rightarrow> 'd" where
  "stu_val fp bld st C K m w h =
     (if K = 1 then (case bld of Serial \<Rightarrow> ref_val fp st C 1 m w h | OpenMP _ _ \<Rightarrow> d_zero fp)
      else if K = 3 then
        fold (\<lambda>c. fold (\<lambda>x s. d_add fp s (row3_val fp st m w h c x)) [0..<3]) [0..<C] (d_zero fp)
      else if K = 5 then
        fold (\<lambda>c. fold (\<lambda>x s. d_add fp s (row5_val fp st m w h c x)) [0..<5]) [0..<C] (d_zero fp)
      else if K = 7 then ref_val fp st C 7 m w h
      else d_zero fp)"

definition ref_out :: "('f, 'd) fpu \<Rightarrow> 'f conv_state \<Rightarrow> nat \<Rightarrow> nat \<Rightarrow> nat \<Rightarrow> nat \<Rightarrow> nat \<Rightarrow> 'f" where
  "ref_out fp st W H C K n = f_of_d fp (case cell_of W H n of (m, w, h) \<Rightarrow> ref_val fp st C K m w h)"

definition stu_out ::
  "('f, 'd) fpu \<Rightarrow> 'd build \<Rightarrow> 'f conv_state \<Rightarrow> nat \<Rightarrow> nat \<Rightarrow> nat \<Rightarrow> nat \<Rightarrow> nat \<Rightarrow> 'f" where
  "stu_out fp bld st W H C K n =
     f_of_d fp (case cell_of W H n of (m, w, h) \<Rightarrow> stu_val fp bld st C K m w h)"

definition two_channel_input :: "ieee conv_state" where
  \<comment> \<open>a single output cell, kernel order 1, two channels: the image holds 2.0 and 3.0 at the
      cell (and zeros in the rows and columns of the over-allocation), the kernel 4 and 5\<close>
  "two_channel_input =
     \<lparr>image = \<lparr>n0 = 2, n1 = 2, n2 = 2,
               cells3 = [Finite 2, Finite 3, Finite 0, Finite 0, Finite 0, Finite 0, Finite 0, Finite 0]\<rparr>,
      kernels = \<lparr>k0 = 1, k1 = 2, k2 = 1, k3 = 1, cells4 = [4, 5]\<rparr>,
      outp = \<lparr>n0 = 1, n1 = 1, n2 = 1, cells3 = [NaN]\<rparr>,
      stores = []\<rparr>"

definition abs_diff :: "('f, 'd) fpu \<Rightarrow> 'f \<Rightarrow> 'f \<Rightarrow> 'd" where
  "abs_diff fp c r = d_fabs fp (d_of_f fp (f_sub fp c r))"

definition sad :: "('f, 'd) fpu \<Rightarrow> 'f matrix3 \<Rightarrow> 'f matrix3 \<Rightarrow> 'd" where
  "sad fp control candidate =
     fold (\<lambda>(c, r) s. d_add fp s (abs_diff fp c r)) (zip (cells3 control) (cells3 candidate))
       (d_zero fp)"

definition diffs_ok :: "('f, 'd) fpu \<Rightarrow> 'f matrix3 \<Rightarrow> 'f matrix3 \<Rightarrow> bool" where
  "diffs_ok fp control candidate =
     list_all (\<lambda>(c, r). d_ge fp (abs_diff fp c r) (d_zero fp))
       (zip (cells3 control) (cells3 candidate))"

fun ieee_finite :: "ieee \<Rightarrow> bool" where
  "ieee_finite (Finite a) = True"
| "ieee_finite x = False"

definition ieee_int :: "ieee \<Rightarrow> int" where
  "ieee_int v = (case v of Finite q \<Rightarrow> \<lfloor>q\<rfloor> | _ \<Rightarrow> 0)"

definition int_valued :: "int \<Rightarrow> ieee \<Rightarrow> bool" where
  "int_valued A v = (case v of Finite q \<Rightarrow> q = of_int \<lfloor>q\<rfloor> \<and> \<bar>\<lfloor>q\<rfloor>\<bar> \<le> A | _ \<Rightarrow> False)"

definition small_data :: "int \<Rightarrow> int \<Rightarrow> ieee conv_state \<Rightarrow> bool" where
  "small_data A B st =
     (list_all (int_valued A) (cells3 (image st))
      \<and> list_all (\<lambda>k. \<bar>sint k\<bar> \<le> B) (cells4 (kernels st)))"

definition itap :: "ieee conv_state \<Rightarrow> nat \<Rightarrow> nat \<Rightarrow> nat \<Rightarrow> nat \<Rightarrow> nat \<Rightarrow> nat \<Rightarrow> int" where
  "itap st m w h c x y = ieee_int (img st (w + x) (h + y) c) * sint (ker st m c x y)"

definition isum :: "ieee conv_state \<Rightarrow> nat \<Rightarrow> nat \<Rightarrow> nat \<Rightarrow> nat \<Rightarrow> nat \<Rightarrow> int" where
  "isum st C K m w h =
     (\<Sum>c\<leftarrow>[0..<C]. \<Sum>x\<leftarrow>[0..<K]. \<Sum>y\<leftarrow>[0..<K]. itap st m w h c x y)"

definition shaped :: "'f conv_state \<Rightarrow> nat \<Rightarrow> nat \<Rightarrow> nat \<Rightarrow> nat \<Rightarrow> nat \<Rightarrow> bool" where
  "shaped st W H C M K =
     (wf3 (image st) \<and> n0 (image st) = W + K \<and> n1 (image st) = H + K \<and> n2 (image st) = C
      \<and> wf4 (kernels st) \<and> k0 (kernels st) = M \<and> k1 (kernels st) = C
      \<and> k2 (kernels st) = K \<and> k3 (kernels st) = K)"

definition adds :: "(ieee \<Rightarrow> ieee) \<Rightarrow> int \<Rightarrow> int \<Rightarrow> bool" where
  "adds g d b =
     (\<bar>d\<bar> \<le> b \<and> (\<forall>a. \<bar>a\<bar> + b \<le> 9007199254740992 \<longrightarrow> g (Finite (of_int a)) = Finite (of_int (a + d))))"

definition cancel_input :: "ieee conv_state" where
  "cancel_input =
     \<lparr>image = \<lparr>n0 = 4, n1 = 4, n2 = 1,
               cells3 = [Finite 16777216, Finite 1, Finite (- 16777216), Finite 0,
                         Finite 0, Finite 0, Finite 0, Finite 0,
                         Finite 0, Finite 0, Finite 0, Finite 0,
                         Finite 0, Finite 0, Finite 0, Finite 0]\<rparr>,
      kernels = \<lparr>k0 = 1, k1 = 1, k2 = 3, k3 = 3, cells4 = [1, 1, 1, 1, 1, 1, 1, 1, 1]\<rparr>,
      outp = \<lparr>n0 = 1, n1 = 1, n2 = 1, cells3 = [NaN]\<rparr>,
      stores = []\<rparr>"

definition driver_input :: "ieee conv_state" where
  \<comment> \<open>a single output cell, one channel, kernel order 3, with the largest elements the
      driver's generators produce: 5119.0 in the image, 1023 in the kernel\<close>
  "driver_input =
     \<lparr>image = \<lparr>n0 = 4, n1 = 4, n2 = 1, cells3 = replicate 16 (Finite 5119)\<rparr>,
      kernels = \<lparr>k0 = 1, k1 = 1, k2 = 3, k3 = 3, cells4 = replicate 9 1023\<rparr>,
      outp = \<lparr>n0 = 1, n1 = 1, n2 = 1, cells3 = [NaN]\<rparr>,
      stores = []\<rparr>"

text \<open>
  The channels of the image and the channel axis of the kernels renumbered by \<open>p\<close>:
  channel \<open>c\<close> of the new tensors is channel \<open>p c\<close> of the old ones.
\<close>

definition permute_channels :: "(nat \<Rightarrow> nat) \<Rightarrow> 'f conv_state \<Rightarrow> 'f conv_state" where
  "permute_channels p st =
     st\<lparr>image := (image st)\<lparr>cells3 :=
            map (\<lambda>n. cells3 (image st) ! (n - n mod n2 (image st) + p (n mod n2 (image st))))
              [0..<length (cells3 (image st))]\<rparr>,
        kernels := (kernels st)\<lparr>cells4 :=
            map (\<lambda>n. let kk = k2 (kernels st) * k3 (kernels st);
                         c = n div kk mod k1 (kernels st)
                     in cells4 (kernels st) ! (n - c * kk + p c * kk))
              [0..<length (cells4 (kernels st))]\<rparr>\<rparr>"

definition swap_idx :: "nat \<Rightarrow> nat \<Rightarrow> nat \<Rightarrow> nat" where
  "swap_idx a b c = (if c = a then b else if c = b then a else c)"

text \<open>
  One output cell, kernel order 1, three channels holding \<open>2\<^sup>5\<^sup>3\<close>,
  \<open>- 2\<^sup>5\<^sup>3\<close> and 1, all weights 1.
\<close>

definition absorb_input :: "ieee conv_state" where
  "absorb_input =
     \<lparr>image = \<lparr>n0 = 2, n1 = 2, n2 = 3,
               cells3 = [Finite 9007199254740992, Finite (- 9007199254740992), Finite 1,
                         Finite 0, Finite 0, Finite 0, Finite 0, Finite 0, Finite 0,
                         Finite 0, Finite 0, Finite 0]\<rparr>,
      kernels = \<lparr>k0 = 1, k1 = 3, k2 = 1, k3 = 1, cells4 = [1, 1, 1]\<rparr>,
      outp = \<lparr>n0 = 1, n1 = 1, n2 = 1, cells3 = [NaN]\<rparr>,
      stores = []\<rparr>"

text \<open>
  \<open>two_channel_input\<close> with other values in the over-allocated rows and columns.
\<close>

definition two_channel_padded :: "ieee conv_state" where
  "two_channel_padded =
     \<lparr>image = \<lparr>n0 = 2, n1 = 2, n2 = 2,
               cells3 = [Finite 2, Finite 3, Finite 7, Finite 7, Finite 7, Finite 7, Finite 7, Finite 7]\<rparr>,
      kernels = \<lparr>k0 = 1, k1 = 2, k2 = 1, k3 = 1, cells4 = [4, 5]\<rparr>,
      outp = \<lparr>n0 = 1, n1 = 1, n2 = 1, cells3 = [NaN]\<rparr>,
      stores = []\<rparr>"

text \<open>
  Two states agree on the window of the cell \<open>(m, w, h)\<close>: on
  \<^verbatim>\<open>image[w+x][h+y][c]\<close> and \<^verbatim>\<open>kernels[m][c][x][y]\<close> for
  \<open>c < C\<close> and \<open>x, y < K\<close>.
\<close>

definition same_window ::
  "'f conv_state \<Rightarrow> 'f conv_state \<Rightarrow> nat \<Rightarrow> nat \<Rightarrow> nat \<Rightarrow> nat \<Rightarrow> nat \<Rightarrow> bool" where
  "same_window st st' C K m w h =
     (\<forall>c<C. \<forall>x<K. \<forall>y<K.
        img st (w + x) (h + y) c = img st' (w + x) (h + y) c \<and> ker st m c x y = ker st' m c x y)"

subsection \<open>The arithmetic read as terms\<close>

text \<open>
  An interpretation of the operations in which nothing is computed: every operation builds
  the term of its application, and an element of the image is the atom \<open>Elem n\<close>.
  The value a routine stores under this interpretation is the record of the operations,
  and of their precisions, that produce the value in any other arithmetic.
\<close>

datatype expr =
    Elem nat
  | F_of_i16 "16 word" | D_of_i16 "16 word"
  | D_of_f expr | F_of_d expr
  | F_zero | F_one | D_zero | D_epsilon
  | F_mul expr expr | F_add expr expr | F_sub expr expr
  | D_mul expr expr | D_add expr expr | D_fabs expr

definition term_fpu :: "(expr, expr) fpu" where
  "term_fpu = \<lparr>
     f_of_i16 = F_of_i16, d_of_i16 = D_of_i16, d_of_f = D_of_f, f_of_d = F_of_d,
     f_zero = F_zero, f_one = F_one, d_zero = D_zero, d_epsilon = D_epsilon,
     f_mul = F_mul, f_add = F_add, f_sub = F_sub,
     d_mul = D_mul, d_add = D_add, d_fabs = D_fabs,
     d_ge = (\<lambda>x y. True), d_gt = (\<lambda>x y. False)\<rparr>"

text \<open>
  The shapes of the stored term. A \<^emph>\<open>promoted product\<close> is the product of an image
  element and a weight converted from \<^verbatim>\<open>int16_t\<close>, either formed in
  \<^verbatim>\<open>float\<close> and widened (\<open>widened_float_product\<close>) or formed in
  \<^verbatim>\<open>double\<close> from the widened element (\<open>double_product\<close>).
  \<open>double_sum_of P\<close> holds of the terms built from 0.0 and terms of the shape
  \<open>P\<close> by additions in \<^verbatim>\<open>double\<close> only. \<open>precision_policy\<close> holds
  of a \<^verbatim>\<open>double\<close> sum of promoted products that is narrowed once, at the top;
  \<open>float_products_policy\<close> and \<open>double_products_policy\<close> fix the form of
  the products. \<open>float_row_sum\<close> is the shape of the sum of a kernel row that
  \<^verbatim>\<open>_mm_dp_ps\<close> forms for kernel order 3: three \<^verbatim>\<open>float\<close>
  products, each multiplied by 1.0, added in \<^verbatim>\<open>float\<close> and then widened.
\<close>

definition atom :: "expr \<Rightarrow> bool" where
  "atom e = (case e of Elem a \<Rightarrow> True | _ \<Rightarrow> False)"

definition weight_f :: "expr \<Rightarrow> bool" where
  "weight_f e = (case e of F_of_i16 k \<Rightarrow> True | _ \<Rightarrow> False)"

definition weight_d :: "expr \<Rightarrow> bool" where
  "weight_d e = (case e of D_of_i16 k \<Rightarrow> True | _ \<Rightarrow> False)"

definition float_product :: "expr \<Rightarrow> bool" where
  "float_product e = (case e of F_mul a k \<Rightarrow> atom a \<and> weight_f k | _ \<Rightarrow> False)"

definition widened_float_product :: "expr \<Rightarrow> bool" where
  "widened_float_product e = (case e of D_of_f p \<Rightarrow> float_product p | _ \<Rightarrow> False)"

definition double_product :: "expr \<Rightarrow> bool" where
  "double_product e =
     (case e of
        D_mul a k \<Rightarrow> (case a of D_of_f a' \<Rightarrow> atom a' | _ \<Rightarrow> False) \<and> weight_d k
      | _ \<Rightarrow> False)"

definition promoted_product :: "expr \<Rightarrow> bool" where
  "promoted_product e = (widened_float_product e \<or> double_product e)"

primrec double_sum_of :: "(expr \<Rightarrow> bool) \<Rightarrow> expr \<Rightarrow> bool" where
  "double_sum_of P D_zero = True"
| "double_sum_of P (D_add a b) = (double_sum_of P a \<and> double_sum_of P b)"
| "double_sum_of P (Elem a) = P (Elem a)"
| "double_sum_of P (F_of_i16 k) = P (F_of_i16 k)"
| "double_sum_of P (D_of_i16 k) = P (D_of_i16 k)"
| "double_sum_of P (D_of_f a) = P (D_of_f a)"
| "double_sum_of P (F_of_d a) = P (F_of_d a)"
| "double_sum_of P F_zero = P F_zero"
| "double_sum_of P F_one = P F_one"
| "double_sum_of P D_epsilon = P D_epsilon"
| "double_sum_of P (F_mul a b) = P (F_mul a b)"
| "double_sum_of P (F_add a b) = P (F_add a b)"
| "double_sum_of P (F_sub a b) = P (F_sub a b)"
| "double_sum_of P (D_mul a b) = P (D_mul a b)"
| "double_sum_of P (D_fabs a) = P (D_fabs a)"

definition precision_policy :: "expr \<Rightarrow> bool" where
  "precision_policy e = (case e of F_of_d s \<Rightarrow> double_sum_of promoted_product s | _ \<Rightarrow> False)"

definition float_products_policy :: "expr \<Rightarrow> bool" where
  "float_products_policy e =
     (case e of F_of_d s \<Rightarrow> double_sum_of widened_float_product s | _ \<Rightarrow> False)"

definition double_products_policy :: "expr \<Rightarrow> bool" where
  "double_products_policy e =
     (case e of F_of_d s \<Rightarrow> double_sum_of double_product s | _ \<Rightarrow> False)"

definition scaled_product :: "expr \<Rightarrow> bool" where
  "scaled_product e = (case e of F_mul p u \<Rightarrow> float_product p \<and> u = F_one | _ \<Rightarrow> False)"

definition float_row_sum :: "expr \<Rightarrow> bool" where
  "float_row_sum e =
     (case e of
        D_of_f r \<Rightarrow>
          (case r of
             F_add a b \<Rightarrow>
               (case a of F_add t0 t1 \<Rightarrow> scaled_product t0 \<and> scaled_product t1 | _ \<Rightarrow> False)
               \<and> (case b of F_add t2 z \<Rightarrow> scaled_product t2 \<and> z = F_zero | _ \<Rightarrow> False)
           | _ \<Rightarrow> False)
      | _ \<Rightarrow> False)"

definition float_rows_policy :: "expr \<Rightarrow> bool" where
  "float_rows_policy e = (case e of F_of_d s \<Rightarrow> double_sum_of float_row_sum s | _ \<Rightarrow> False)"

definition order_policy :: "int \<Rightarrow> expr \<Rightarrow> bool" where
  \<comment> \<open>the shape of a stored term, by kernel order\<close>
  "order_policy kernel_order =
     (if kernel_order = 3 then float_rows_policy
      else if kernel_order = 5 then double_products_policy
      else float_products_policy)"

text \<open>
  One output cell, one channel, one kernel of order \<open>K\<close>: the image holds the atoms
  \<open>Elem 0\<close>, \<open>Elem 1\<close>, ... in the order of the buffer, the kernel the weights
  0, 1, ...
\<close>

definition elem_input :: "nat \<Rightarrow> expr conv_state" where
  "elem_input K =
     \<lparr>image = \<lparr>n0 = 1 + K, n1 = 1 + K, n2 = 1, cells3 = map Elem [0..<(1 + K) * (1 + K)]\<rparr>,
      kernels = \<lparr>k0 = 1, k1 = 1, k2 = K, k3 = K, cells4 = map of_nat [0..<K * K]\<rparr>,
      outp = \<lparr>n0 = 1, n1 = 1, n2 = 1, cells3 = [F_zero]\<rparr>,
      stores = []\<rparr>"

text \<open>
  Two kernels of order \<open>K\<close> and one output cell for each, one channel, all elements
  one.
\<close>

definition two_kernel_input :: "nat \<Rightarrow> ieee conv_state" where
  "two_kernel_input K =
     \<lparr>image = \<lparr>n0 = 1 + K, n1 = 1 + K, n2 = 1, cells3 = replicate ((1 + K) * (1 + K)) (Finite 1)\<rparr>,
      kernels = \<lparr>k0 = 2, k1 = 1, k2 = K, k3 = K, cells4 = replicate (2 * (K * K)) 1\<rparr>,
      outp = \<lparr>n0 = 2, n1 = 1, n2 = 1, cells3 = [NaN, NaN]\<rparr>,
      stores = []\<rparr>"

section \<open>Loops, tensors and the state\<close>

lemma bind_err_Inr [simp]: "bind_err (Inr v) f = f v"
  by (simp add: bind_err_def)

lemma bind_err_Inl [simp]: "bind_err (Inl e) f = Inl e"
  by (simp add: bind_err_def)

lemma bind_err_eq_Inr: "bind_err r f = Inr y \<longleftrightarrow> (\<exists>v. r = Inr v \<and> f v = Inr y)"
  by (cases r) simp_all

lemma for_loop_append: "for_loop (xs @ ys) body s = bind_err (for_loop xs body s) (for_loop ys body)"
  by (induction xs arbitrary: s) (simp_all add: bind_err_def split: sum.splits)

lemma for_loop_cong_body:
  "(\<And>i s. i \<in> set xs \<Longrightarrow> body i s = body' i s) \<Longrightarrow> for_loop xs body s = for_loop xs body' s"
  by (induction xs arbitrary: s) (simp_all add: bind_err_def split: sum.splits)

lemma for_loop_fold:
  "(\<And>i s. i \<in> set xs \<Longrightarrow> body i s = Inr (g i s)) \<Longrightarrow> for_loop xs body s = Inr (fold g xs s)"
  by (induction xs arbitrary: s) simp_all

lemma for_loop_stride:
  assumes "\<And>i. i < n \<Longrightarrow> body i (F (b + i * k)) = Inr (F (b + Suc i * k))"
  shows "for_loop [0..<n] body (F b) = Inr (F (b + n * k))"
  using assms
proof (induction n)
  case 0
  then show ?case by simp
next
  case (Suc n)
  have "for_loop [0..<n] body (F b) = Inr (F (b + n * k))"
    using Suc by simp
  moreover have "body n (F (b + n * k)) = Inr (F (b + Suc n * k))"
    using Suc.prems by simp
  ultimately show ?case
    by (simp add: for_loop_append)
qed

lemma upto_int_nat [simp]: "upto_int (int n) = [0..<n]"
  by (simp add: upto_int_def)

lemma flat_bound3:
  fixes i j k :: nat
  assumes "i < a" "j < b" "k < c"
  shows "i * b * c + j * c + k < a * b * c"
proof -
  have "i * b * c + j * c + k < i * b * c + j * c + c" using assms by simp
  also have "\<dots> = i * b * c + (j + 1) * c" by (simp add: algebra_simps)
  also have "\<dots> \<le> i * b * c + b * c"
  proof -
    have "j + 1 \<le> b" using assms by simp
    then have "(j + 1) * c \<le> b * c" by (rule mult_le_mono1)
    then show ?thesis by simp
  qed
  also have "\<dots> = (i + 1) * (b * c)" by (simp add: algebra_simps)
  also have "\<dots> \<le> a * (b * c)" using assms by (intro mult_le_mono1) simp
  finally show ?thesis by (simp add: algebra_simps)
qed

lemma flat_bound4:
  fixes i j k l :: nat
  assumes "i < a" "j < b" "k < c" "l < d"
  shows "i * b * c * d + j * c * d + k * d + l < a * b * c * d"
proof -
  have "(i * b * c + j * c + k) * d + l < (i * b * c + j * c + k) * d + d" using assms by simp
  also have "\<dots> = (i * b * c + j * c + k + 1) * d" by (simp add: algebra_simps)
  also have "\<dots> \<le> (a * b * c) * d"
    using flat_bound3[OF assms(1-3)] by (intro mult_le_mono1) simp
  finally show ?thesis by (simp add: algebra_simps)
qed

lemma at3_inside:
  assumes "wf3 a" "i < n0 a" "j < n1 a" "k < n2 a"
  shows "at3 a (int i) (int j) (int k) = Inr (cells3 a ! (i * n1 a * n2 a + j * n2 a + k))"
proof -
  have "i * n1 a * n2 a + j * n2 a + k < length (cells3 a)"
    using flat_bound3[OF assms(2-4)] assms(1) by (simp add: wf3_def)
  moreover have "flat3 a (int i) (int j) (int k) = int (i * n1 a * n2 a + j * n2 a + k)"
    by (simp add: flat3_def)
  ultimately show ?thesis
    using assms by (simp add: at3_def inside3_def del: of_nat_add of_nat_mult)
qed

lemma at4_inside:
  assumes "wf4 a" "i < k0 a" "j < k1 a" "k < k2 a" "l < k3 a"
  shows "at4 a (int i) (int j) (int k) (int l)
         = Inr (cells4 a ! (i * k1 a * k2 a * k3 a + j * k2 a * k3 a + k * k3 a + l))"
proof -
  have "i * k1 a * k2 a * k3 a + j * k2 a * k3 a + k * k3 a + l < length (cells4 a)"
    using flat_bound4[OF assms(2-5)] assms(1) by (simp add: wf4_def)
  moreover have "flat4 a (int i) (int j) (int k) (int l)
      = int (i * k1 a * k2 a * k3 a + j * k2 a * k3 a + k * k3 a + l)"
    by (simp add: flat4_def)
  ultimately show ?thesis
    using assms by (simp add: at4_def inside4_def del: of_nat_add of_nat_mult)
qed

lemma filled_fields [simp]:
  "image (filled f lg n st) = image st"
  "kernels (filled f lg n st) = kernels st"
  "n0 (outp (filled f lg n st)) = n0 (outp st)"
  "n1 (outp (filled f lg n st)) = n1 (outp st)"
  "n2 (outp (filled f lg n st)) = n2 (outp st)"
  "stores (filled f lg n st) = stores st @ lg n"
  by (simp_all add: filled_def)

lemma filled_length [simp]:
  "n \<le> length (cells3 (outp st)) \<Longrightarrow> length (cells3 (outp (filled f lg n st))) = length (cells3 (outp st))"
  by (simp add: filled_def)

lemma filled_store:
  assumes "n < length (cells3 (outp st))" "lg (Suc n) = lg n @ ns"
  shows "(filled f lg n st)\<lparr>outp := (outp (filled f lg n st))\<lparr>cells3 := (cells3 (outp (filled f lg n st)))[n := f n]\<rparr>,
            stores := stores (filled f lg n st) @ ns\<rparr> = filled f lg (Suc n) st"
proof -
  have "(map f [0..<n] @ drop n (cells3 (outp st)))[n := f n]
        = map f [0..<n] @ f n # drop (Suc n) (cells3 (outp st))"
    using assms(1) by (simp add: list_update_append Cons_nth_drop_Suc[symmetric])
  then show ?thesis
    using assms by (simp add: filled_def)
qed

lemma put_flat_filled:
  assumes "n < length (cells3 (outp st))"
  shows "put_flat (filled f (\<lambda>n. [0..<n]) n st) (int n) (f n) = Inr (filled f (\<lambda>n. [0..<n]) (Suc n) st)"
proof -
  have "length (cells3 (outp (filled f (\<lambda>n. [0..<n]) n st))) = length (cells3 (outp st))"
    using assms by simp
  then have "put_flat (filled f (\<lambda>n. [0..<n]) n st) (int n) (f n)
      = Inr (store_output (filled f (\<lambda>n. [0..<n]) n st) n (f n))"
    using assms by (simp add: put_flat_def)
  also have "store_output (filled f (\<lambda>n. [0..<n]) n st) n (f n) = filled f (\<lambda>n. [0..<n]) (Suc n) st"
    unfolding store_output_def using assms by (intro filled_store) simp_all
  finally show ?thesis .
qed

lemma filled_0: "lg 0 = [] \<Longrightarrow> filled f lg 0 st = st"
  by (simp add: filled_def)

lemma cell_of_flat:
  assumes "w < W" "h < H"
  shows "cell_of W H (m * (W * H) + w * H + h) = (m, w, h)"
proof -
  have n: "m * (W * H) + w * H + h = (m * W + w) * H + h"
    by (simp add: algebra_simps)
  have "((m * W + w) * H + h) div H = m * W + w"
    using assms by simp
  moreover have "((m * W + w) * H + h) mod H = h"
    using assms by simp
  moreover have "(m * W + w) div W = m" "(m * W + w) mod W = w"
    using assms by simp_all
  moreover have "((m * W + w) * H + h) div (W * H) = ((m * W + w) * H + h) div H div W"
    by (simp add: div_mult2_eq mult.commute)
  ultimately show ?thesis
    unfolding cell_of_def n by simp
qed

lemma sc_rows_state:
  assumes "image st' = image st" "kernels st' = kernels st"
  shows "sc_row1 fp st' = sc_row1 fp st" "sc_row3 fp st' = sc_row3 fp st"
    "sc_row5 fp st' = sc_row5 fp st" "sc_row7 fp st' = sc_row7 fp st"
  using assms
  by (simp_all add: fun_eq_iff sc_row1_def sc_row3_def sc_row5_def sc_row7_def sc_mac_def)

lemma sc_channel_state:
  assumes "image st' = image st" "kernels st' = kernels st"
  shows "sc_channel fp bld st' = sc_channel fp bld st"
  unfolding sc_channel_def sc_rows_state[OF assms] ..

lemma for_loop_count:
  assumes "\<And>i. i < n \<Longrightarrow> body i (F (b + i)) = Inr (F (Suc (b + i)))"
  shows "for_loop [0..<n] body (F b) = Inr (F (b + n))"
  using for_loop_stride[where F = F and k = 1 and b = b and n = n and body = body] assms
  by simp

lemma for_loop_stride0:
  assumes "\<And>i. i < n \<Longrightarrow> body i (F (i * k)) = Inr (F (Suc i * k))"
  shows "for_loop [0..<n] body (F 0) = Inr (F (n * k))"
  using for_loop_stride[where F = F and k = k and b = 0 and n = n and body = body] assms
  by simp

lemma student_conv_filled:
  fixes W H M :: nat
  assumes po: "pointers_ok st" and nr: "\<not> data_race bld (int M)"
    and len: "length (cells3 (outp st)) = M * W * H"
    and sums: "\<And>m w h. m < M \<Longrightarrow> w < W \<Longrightarrow> h < H \<Longrightarrow>
                 stu_sum fp bld st C K m w h = Inr (v m w h)"
  shows "student_conv fp bld st (int W) (int H) C (int M) K
         = Inr (filled (\<lambda>n. f_of_d fp (case cell_of W H n of (m, w, h) \<Rightarrow> v m w h))
                  (\<lambda>n. [0..<n]) (M * W * H) st)"
proof -
  define f where "f n = f_of_d fp (case cell_of W H n of (m, w, h) \<Rightarrow> v m w h)" for n
  define F where "F n = filled f (\<lambda>n. [0..<n]) n st" for n
  define cellb where "cellb m w h = sc_cell fp bld C K (K * K) (int m * (K * K * C))
                (int h + (int w * int H + int m * (int W * int H))) w h" for m w h
  have cell: "cellb m w h (F (m * (W * H) + w * H + h)) = Inr (F (Suc (m * (W * H) + w * H + h)))"
    if "m < M" "w < W" "h < H" for m w h
  proof -
    let ?n = "m * (W * H) + w * H + h"
    have n: "?n < length (cells3 (outp st))"
      using flat_bound3[OF that] len by (simp add: algebra_simps)
    have idx: "int h + (int w * int H + int m * (int W * int H)) = int ?n"
      by (simp add: algebra_simps)
    have dec: "f ?n = f_of_d fp (v m w h)"
      using that by (simp add: f_def cell_of_flat)
    have "for_loop (upto_int C)
            (sc_channel fp bld (F ?n) K (K * K) (int m * (K * K * C)) w h) (d_zero fp)
          = Inr (v m w h)"
      using sums[OF that] sc_channel_state[of "F ?n" st fp bld]
      by (simp add: stu_sum_def F_def)
    moreover have "put_flat (F ?n) (int ?n) (f ?n) = Inr (F (Suc ?n))"
      unfolding F_def using n by (rule put_flat_filled)
    ultimately show ?thesis
      unfolding cellb_def sc_cell_def idx dec by simp
  qed
  have row: "for_loop [0..<H] (cellb m w) (F (m * (W * H) + w * H)) = Inr (F (m * (W * H) + Suc w * H))"
    if "m < M" "w < W" for m w
  proof -
    have "for_loop [0..<H] (cellb m w) (F (m * (W * H) + w * H)) = Inr (F (m * (W * H) + w * H + H))"
      by (rule for_loop_count) (rule cell[OF that])
    moreover have "m * (W * H) + w * H + H = m * (W * H) + Suc w * H"
      by simp
    ultimately show ?thesis by simp
  qed
  have slab: "for_loop [0..<W] (\<lambda>w. for_loop [0..<H] (cellb m w)) (F (m * (W * H)))
              = Inr (F (Suc m * (W * H)))"
    if "m < M" for m
  proof -
    have "for_loop [0..<W] (\<lambda>w. for_loop [0..<H] (cellb m w)) (F (m * (W * H)))
              = Inr (F (m * (W * H) + W * H))"
      by (rule for_loop_stride) (rule row[OF that])
    moreover have "m * (W * H) + W * H = Suc m * (W * H)"
      by simp
    ultimately show ?thesis by simp
  qed
  have "for_loop [0..<M] (\<lambda>m. for_loop [0..<W] (\<lambda>w. for_loop [0..<H] (cellb m w))) (F 0)
        = Inr (F (M * (W * H)))"
    by (rule for_loop_stride0) (rule slab)
  moreover have "F 0 = st"
    by (simp add: F_def filled_0)
  ultimately show ?thesis
    unfolding student_conv_def Let_def upto_int_nat cellb_def F_def f_def
    using po nr by (simp only: not_True_eq_False if_False mult.assoc)
qed


lemma mc_tap_state:
  assumes "image st' = image st" "kernels st' = kernels st"
  shows "mc_tap fp st' = mc_tap fp st"
  using assms by (simp add: fun_eq_iff mc_tap_def)

lemma mc_window_state:
  assumes "image st' = image st" "kernels st' = kernels st"
  shows "mc_window fp st' = mc_window fp st"
  unfolding mc_window_def mc_tap_state[OF assms] ..

lemma written_fields [simp]:
  "image (written st n c x) = image st"
  "kernels (written st n c x) = kernels st"
  "n0 (outp (written st n c x)) = n0 (outp st)"
  "n1 (outp (written st n c x)) = n1 (outp st)"
  "n2 (outp (written st n c x)) = n2 (outp st)"
  "length (cells3 (outp (written st n c x))) = length (cells3 (outp st))"
  by (simp_all add: written_def)

lemma store_output_written:
  "store_output (written st n c x) n y = written st n (Suc c) y"
  by (simp add: store_output_def written_def replicate_append_same)

lemma put3_inside:
  assumes "length (cells3 (outp st)) = n0 (outp st) * n1 (outp st) * n2 (outp st)"
    "m < n0 (outp st)" "w < n1 (outp st)" "h < n2 (outp st)"
  shows "put3 st (int m) (int w) (int h) x
         = Inr (store_output st (m * n1 (outp st) * n2 (outp st) + w * n2 (outp st) + h) x)"
proof -
  have "m * n1 (outp st) * n2 (outp st) + w * n2 (outp st) + h < length (cells3 (outp st))"
    using flat_bound3[OF assms(2-4)] assms(1) by simp
  moreover have "flat3 (outp st) (int m) (int w) (int h)
      = int (m * n1 (outp st) * n2 (outp st) + w * n2 (outp st) + h)"
    by (simp add: flat3_def)
  ultimately show ?thesis
    using assms by (simp add: put3_def inside3_def del: of_nat_add of_nat_mult)
qed

lemma mc_channels_written:
  assumes shape: "length (cells3 (outp st)) = n0 (outp st) * n1 (outp st) * n2 (outp st)"
    "m < n0 (outp st)" "w < n1 (outp st)" "h < n2 (outp st)"
    and n: "n = m * n1 (outp st) * n2 (outp st) + w * n2 (outp st) + h"
    and win: "for_loop [0..<c] (mc_window fp st K m w h) s0 = Inr s"
  shows "for_loop [0..<c] (mc_channel fp K m w h) (s0, st) = Inr (s, written st n c (f_of_d fp s))"
  using win
proof (induction c arbitrary: s)
  case 0
  then show ?case by (simp add: written_def)
next
  case (Suc c)
  from Suc.prems obtain s' where s': "for_loop [0..<c] (mc_window fp st K m w h) s0 = Inr s'"
    and last: "mc_window fp st K m w h c s' = Inr s"
    by (auto simp: for_loop_append bind_err_eq_Inr)
  let ?st = "written st n c (f_of_d fp s')"
  have "mc_window fp ?st = mc_window fp st"
    by (rule mc_window_state) simp_all
  moreover have "put3 ?st (int m) (int w) (int h) (f_of_d fp s) = Inr (store_output ?st n (f_of_d fp s))"
    using put3_inside[of ?st m w h] shape n by simp
  ultimately have "mc_channel fp K m w h c (s', ?st) = Inr (s, written st n (Suc c) (f_of_d fp s))"
    using last by (simp add: mc_channel_def store_output_written)
  then show ?case
    using Suc.IH[OF s'] by (simp add: for_loop_append)
qed


lemma written_filled:
  assumes "n < length (cells3 (outp st))" "0 < C"
  shows "written (filled f (\<lambda>n. concat (map (replicate C) [0..<n])) n st) n C (f n)
         = filled f (\<lambda>n. concat (map (replicate C) [0..<n])) (Suc n) st"
proof -
  have "C \<noteq> 0" using assms by simp
  then have "written (filled f (\<lambda>n. concat (map (replicate C) [0..<n])) n st) n C (f n)
      = (filled f (\<lambda>n. concat (map (replicate C) [0..<n])) n st)
          \<lparr>outp := (outp (filled f (\<lambda>n. concat (map (replicate C) [0..<n])) n st))
             \<lparr>cells3 := (cells3 (outp (filled f (\<lambda>n. concat (map (replicate C) [0..<n])) n st)))[n := f n]\<rparr>,
           stores := stores (filled f (\<lambda>n. concat (map (replicate C) [0..<n])) n st) @ replicate C n\<rparr>"
    unfolding written_def by (simp only: if_False)
  also have "\<dots> = filled f (\<lambda>n. concat (map (replicate C) [0..<n])) (Suc n) st"
    using assms by (intro filled_store) simp_all
  finally show ?thesis .
qed

lemma multichannel_conv_filled:
  fixes W H M C :: nat
  assumes shape: "length (cells3 (outp st)) = M * W * H"
      "n0 (outp st) = M" "n1 (outp st) = W" "n2 (outp st) = H"
    and C: "0 < C"
    and sums: "\<And>m w h. m < M \<Longrightarrow> w < W \<Longrightarrow> h < H \<Longrightarrow>
                 ref_sum fp st (int C) K m w h = Inr (v m w h)"
  shows "multichannel_conv fp st (int W) (int H) (int C) (int M) K
         = Inr (filled (\<lambda>n. f_of_d fp (case cell_of W H n of (m, w, h) \<Rightarrow> v m w h))
                  (\<lambda>n. concat (map (replicate C) [0..<n])) (M * W * H) st)"
proof -
  define f where "f n = f_of_d fp (case cell_of W H n of (m, w, h) \<Rightarrow> v m w h)" for n
  define F where "F n = filled f (\<lambda>n. concat (map (replicate C) [0..<n])) n st" for n
  have cell: "mc_cell fp (int C) K m w h (F (m * (W * H) + w * H + h))
              = Inr (F (Suc (m * (W * H) + w * H + h)))"
    if "m < M" "w < W" "h < H" for m w h
  proof -
    let ?n = "m * (W * H) + w * H + h"
    have n: "?n < length (cells3 (outp st))"
      using flat_bound3[OF that] shape(1) by (simp add: algebra_simps)
    have dec: "f ?n = f_of_d fp (v m w h)"
      using that by (simp add: f_def cell_of_flat)
    have len: "length (cells3 (outp (F ?n))) = M * W * H"
      unfolding F_def using n shape(1) by simp
    have win: "for_loop [0..<C] (mc_window fp (F ?n) K m w h) (d_zero fp) = Inr (v m w h)"
      using sums[OF that] mc_window_state[of "F ?n" st fp]
      by (simp add: ref_sum_def F_def)
    have "for_loop [0..<C] (mc_channel fp K m w h) (d_zero fp, F ?n)
          = Inr (v m w h, written (F ?n) ?n C (f_of_d fp (v m w h)))"
      using that shape len
      by (intro mc_channels_written[OF _ _ _ _ _ win]) (simp_all add: F_def algebra_simps)
    moreover have "written (F ?n) ?n C (f ?n) = F (Suc ?n)"
      unfolding F_def using n C by (rule written_filled)
    ultimately show ?thesis
      unfolding mc_cell_def dec by simp
  qed
  have row: "for_loop [0..<H] (mc_cell fp (int C) K m w) (F (m * (W * H) + w * H))
             = Inr (F (m * (W * H) + Suc w * H))"
    if "m < M" "w < W" for m w
  proof -
    have "for_loop [0..<H] (mc_cell fp (int C) K m w) (F (m * (W * H) + w * H))
          = Inr (F (m * (W * H) + w * H + H))"
      by (rule for_loop_count) (rule cell[OF that])
    moreover have "m * (W * H) + w * H + H = m * (W * H) + Suc w * H"
      by simp
    ultimately show ?thesis by simp
  qed
  have slab: "for_loop [0..<W] (\<lambda>w. for_loop [0..<H] (mc_cell fp (int C) K m w)) (F (m * (W * H)))
              = Inr (F (Suc m * (W * H)))"
    if "m < M" for m
  proof -
    have "for_loop [0..<W] (\<lambda>w. for_loop [0..<H] (mc_cell fp (int C) K m w)) (F (m * (W * H)))
              = Inr (F (m * (W * H) + W * H))"
      by (rule for_loop_stride) (rule row[OF that])
    moreover have "m * (W * H) + W * H = Suc m * (W * H)"
      by simp
    ultimately show ?thesis by simp
  qed
  have "for_loop [0..<M] (\<lambda>m. for_loop [0..<W] (\<lambda>w. for_loop [0..<H] (mc_cell fp (int C) K m w))) (F 0)
        = Inr (F (M * (W * H)))"
    by (rule for_loop_stride0) (rule slab)
  moreover have "F 0 = st"
    by (simp add: F_def filled_0)
  ultimately show ?thesis
    unfolding multichannel_conv_def upto_int_nat F_def f_def
    by (simp only: mult.assoc)
qed


lemma stu_sum_unsupported:
  assumes "kernel_order \<noteq> 1" "kernel_order \<noteq> 3" "kernel_order \<noteq> 5" "kernel_order \<noteq> 7"
  shows "stu_sum fp bld st nchannels kernel_order m w h = Inr (d_zero fp)"
proof -
  have "for_loop xs (sc_channel fp bld st kernel_order kk mi w h) s = Inr s" for xs kk mi s
    using assms by (induction xs) (simp_all add: sc_channel_def)
  then show ?thesis by (simp add: stu_sum_def)
qed

lemma filled_const:
  assumes "length (cells3 (outp st)) = n"
  shows "filled (\<lambda>_. x) (\<lambda>n. [0..<n]) n st
         = st\<lparr>outp := (outp st)\<lparr>cells3 := replicate n x\<rparr>, stores := stores st @ [0..<n]\<rparr>"
  using assms by (simp add: filled_def map_replicate_const)

lemma at_flat_kernel:
  fixes m c x y M C K :: nat
  assumes "wf4 a" "k0 a = M" "k1 a = C" "k2 a = K" "k3 a = K"
    "m < M" "c < C" "x < K" "y < K"
  shows "at_flat (cells4 a)
           (int y + (int x * int K + (int c * (int K * int K) + int m * (int K * int K * int C))))
         = at4 a (int m) (int c) (int x) (int y)"
proof -
  let ?n = "m * C * K * K + c * K * K + x * K + y"
  have n: "?n < length (cells4 a)"
    using flat_bound4[of m M c C x K y K] assms by (simp add: wf4_def)
  have idx: "int y + (int x * int K + (int c * (int K * int K) + int m * (int K * int K * int C)))
             = int ?n"
    by (simp add: algebra_simps)
  have "at4 a (int m) (int c) (int x) (int y) = Inr (cells4 a ! ?n)"
    using at4_inside[of a m c x y] assms by simp
  moreover have "at_flat (cells4 a) (int ?n) = Inr (cells4 a ! ?n)"
    using n unfolding at_flat_def by (simp del: of_nat_add of_nat_mult)
  ultimately show ?thesis
    unfolding idx by simp
qed

lemma mc_tap_eq_sc_mac:
  fixes m c x y M C K :: nat
  assumes "wf4 (kernels st)" "k0 (kernels st) = M" "k1 (kernels st) = C"
    "k2 (kernels st) = K" "k3 (kernels st) = K" "m < M" "c < C" "x < K" "y < K"
  shows "sc_mac fp st (int w + int x) (int h + int y) (int c)
           (int y + (int x * int K + (int c * (int K * int K) + int m * (int K * int K * int C)))) s
         = mc_tap fp st m w h c x y s"
  unfolding sc_mac_def mc_tap_def at_flat_kernel[OF assms] ..


lemma mc_tap_pure:
  fixes m w h c x y W H C M K :: nat
  assumes "wf3 (image st)" "n0 (image st) = W + K" "n1 (image st) = H + K" "n2 (image st) = C"
    "wf4 (kernels st)" "k0 (kernels st) = M" "k1 (kernels st) = C"
    "k2 (kernels st) = K" "k3 (kernels st) = K"
    "m < M" "w < W" "h < H" "c < C" "x < K" "y < K"
  shows "mc_tap fp st m w h c x y s = Inr (d_add fp s (tap fp st m w h c x y))"
proof -
  have "at3 (image st) (int (w + x)) (int (h + y)) (int c) = Inr (img st (w + x) (h + y) c)"
    unfolding img_def using assms by (intro at3_inside) simp_all
  moreover have "at4 (kernels st) (int m) (int c) (int x) (int y) = Inr (ker st m c x y)"
    unfolding ker_def using assms by (intro at4_inside) simp_all
  ultimately show ?thesis
    by (simp add: mc_tap_def tap_def)
qed

lemma ref_sum_pure:
  fixes m w h W H C M K :: nat
  assumes "wf3 (image st)" "n0 (image st) = W + K" "n1 (image st) = H + K" "n2 (image st) = C"
    "wf4 (kernels st)" "k0 (kernels st) = M" "k1 (kernels st) = C"
    "k2 (kernels st) = K" "k3 (kernels st) = K"
    "m < M" "w < W" "h < H"
  shows "ref_sum fp st (int C) (int K) m w h = Inr (ref_val fp st C K m w h)"
proof -
  have row: "for_loop [0..<K] (mc_tap fp st m w h c x) s
             = Inr (fold (\<lambda>y s. d_add fp s (tap fp st m w h c x y)) [0..<K] s)"
    if "c < C" "x < K" for c x s
    using assms that by (intro for_loop_fold mc_tap_pure[where W = W and H = H and M = M]) simp_all
  have win: "mc_window fp st (int K) m w h c s
             = Inr (fold (\<lambda>x. fold (\<lambda>y s. d_add fp s (tap fp st m w h c x y)) [0..<K]) [0..<K] s)"
    if "c < C" for c s
    unfolding mc_window_def upto_int_nat using that by (intro for_loop_fold row) simp_all
  show ?thesis
    unfolding ref_sum_def ref_val_def upto_int_nat by (intro for_loop_fold win) simp
qed

lemma upt_7: "[0..<7] = [0, 1, 2, 3, 4, 5, 6]"
  by (simp add: upt_rec)

lemma bind_err_right [simp]: "bind_err r Inr = r"
  by (cases r) simp_all

lemma for_loop_funs:
  "for_loop [] body = Inr"
  "for_loop (i # is) body = (\<lambda>s. bind_err (body i s) (for_loop is body))"
  by (simp_all add: fun_eq_iff)

lemma sc_row7_eq:
  fixes m c x M C :: nat
  assumes "wf4 (kernels st)" "k0 (kernels st) = M" "k1 (kernels st) = C"
    "k2 (kernels st) = 7" "k3 (kernels st) = 7" "m < M" "c < C" "x < 7"
  shows "sc_row7 fp st 7 (int c * 49 + int m * (49 * int C)) w h c x s
         = for_loop [0..<7] (mc_tap fp st m w h c x) s"
proof -
  have taps: "sc_mac fp st (int w + int x) (int h + int y) (int c)
           (int y + (int x * 7 + (int c * 49 + int m * (49 * int C))))
         = mc_tap fp st m w h c x y" if "y < 7" for y
    using mc_tap_eq_sc_mac[of st M C 7 m c x y fp w h] assms that by (simp add: fun_eq_iff)
  show ?thesis
    unfolding sc_row7_def Let_def upt_7
    using taps[of 0] taps[of 1] taps[of 2] taps[of 3] taps[of 4] taps[of 5] taps[of 6]
    by (simp add: for_loop_funs)
qed


lemma upto_int_numeral [simp]: "upto_int (numeral k) = [0..<numeral k]" "upto_int 1 = [0..<1]"
  by (simp_all add: upto_int_def)

lemma sc_channel_7:
  fixes m c M C :: nat
  assumes "wf4 (kernels st)" "k0 (kernels st) = M" "k1 (kernels st) = C"
    "k2 (kernels st) = 7" "k3 (kernels st) = 7" "m < M" "c < C"
  shows "sc_channel fp bld st 7 (7 * 7) (int m * (7 * 7 * int C)) w h c s
         = mc_window fp st 7 m w h c s"
proof -
  have "for_loop [0..<7] (sc_row7 fp st 7 (int c * 49 + int m * (49 * int C)) w h c) s
        = for_loop [0..<7] (\<lambda>x. for_loop [0..<7] (mc_tap fp st m w h c x)) s"
    using assms by (intro for_loop_cong_body sc_row7_eq[where M = M]) simp_all
  then show ?thesis
    by (simp add: sc_channel_def mc_window_def)
qed

lemma stu_sum_7:
  fixes m M C :: nat
  assumes "wf4 (kernels st)" "k0 (kernels st) = M" "k1 (kernels st) = C"
    "k2 (kernels st) = 7" "k3 (kernels st) = 7" "m < M"
  shows "stu_sum fp bld st (int C) 7 m w h = ref_sum fp st (int C) 7 m w h"
  unfolding stu_sum_def ref_sum_def upto_int_nat
  using assms by (intro for_loop_cong_body sc_channel_7[where M = M]) simp_all

lemma valid_call_nat:
  assumes "valid_call st width height nchannels nkernels kernel_order"
  obtains W H C M K :: nat where
    "width = int W" "height = int H" "nchannels = int C" "nkernels = int M"
    "kernel_order = int K" "0 < W" "0 < H" "0 < C" "0 < M" "K \<in> {1, 3, 5, 7}"
    "wf3 (image st)" "n0 (image st) = W + K" "n1 (image st) = H + K" "n2 (image st) = C"
    "wf4 (kernels st)" "k0 (kernels st) = M" "k1 (kernels st) = C"
    "k2 (kernels st) = K" "k3 (kernels st) = K"
    "wf3 (outp st)" "n0 (outp st) = M" "n1 (outp st) = W" "n2 (outp st) = H"
proof -
  from assms have pos: "0 < width" "0 < height" "0 < nchannels" "0 < nkernels" "0 < kernel_order"
    by (auto simp: valid_call_def)
  show ?thesis
  proof (rule that[of "nat width" "nat height" "nat nchannels" "nat nkernels" "nat kernel_order"])
    show "nat kernel_order \<in> {1, 3, 5, 7}"
      using assms by (auto simp: valid_call_def)
  qed (use assms pos in \<open>auto simp: valid_call_def nat_add_distrib\<close>)
qed

lemma outp_filled: "outp (filled f lg n st) = (outp st)\<lparr>cells3 := map f [0..<n] @ drop n (cells3 (outp st))\<rparr>"
  by (simp add: filled_def)

lemma pointers_ok_valid:
  "valid_call st width height nchannels nkernels kernel_order \<Longrightarrow> pointers_ok st"
  by (auto simp: valid_call_def pointers_ok_def)

lemma data_race_simps [simp]:
  "\<not> data_race Serial nkernels"
  "\<not> data_race bld 1"
  "data_race (OpenMP t j) nkernels = (2 \<le> t \<and> 2 \<le> nkernels)"
  by (simp_all add: data_race_def split: build.splits)

lemma student_conv_races:
  assumes "pointers_ok st" "data_race bld nkernels"
  shows "student_conv fp bld st width height nchannels nkernels kernel_order = Inl Data_race"
  using assms by (simp add: student_conv_def)


lemma valid_ones_input:
  "K \<in> {1, 3, 5, 7} \<Longrightarrow> valid_call (ones_input K) 1 1 1 1 (int K)"
  by (auto simp: valid_call_def ones_input_def wf3_def wf4_def)

section \<open>Rounding an integer that fits the format is exact\<close>

lemma rne_of_int [simp]: "rne (of_int z) = z"
  by (simp add: rne_def)

lemma pow2_nat: "pow2 (int k) = 2 ^ k"
  by (simp add: pow2_def)

lemma pow2_pos: "0 < pow2 e"
  by (simp add: pow2_def)

lemma flog2_of_int:
  assumes "0 < n"
  shows "flog2 (of_int n) = bitlen n - 1"
  using assms by (simp add: flog2_def)

lemma round_to_exact_unit:
  assumes q: "q \<noteq> 0" and z: "q = of_int z * pow2 (max (flog2 \<bar>q\<bar>) (1 - emax) - int p + 1)"
    and small: "\<bar>q\<bar> < pow2 (emax + 1)"
  shows "round_to p emax q = Finite q"
proof -
  let ?u = "pow2 (max (flog2 \<bar>q\<bar>) (1 - emax) - int p + 1)"
  have "?u \<noteq> 0" using pow2_pos[of "max (flog2 \<bar>q\<bar>) (1 - emax) - int p + 1"] by simp
  then have "q / ?u = of_int z"
    using z by (metis nonzero_mult_div_cancel_right)
  then have "of_int (rne (q / ?u)) * ?u = q"
    using z by simp
  then show ?thesis
    using q small by (simp add: round_to_def Let_def)
qed

lemma round_to_int_exact:
  assumes n: "\<bar>n\<bar> \<le> 2 ^ p" and p: "0 < p" "int p \<le> emax"
  shows "round_to p emax (of_int n) = Finite (of_int n)"
proof (cases "n = 0")
  case True
  then show ?thesis by (simp add: round_to_def)
next
  case False
  define b where "b = bitlen \<bar>n\<bar>"
  have pos: "0 < \<bar>n\<bar>" using False by simp
  have bb: "2 ^ nat (b - 1) \<le> \<bar>n\<bar>" "\<bar>n\<bar> < 2 ^ nat b"
    using bitlen_bounds[OF pos] by (simp_all add: b_def)
  have b1: "1 \<le> b"
  proof (rule ccontr)
    assume "\<not> 1 \<le> b"
    then have "nat b = 0" by simp
    with bb(2) pos show False by simp
  qed
  have "(2::int) ^ nat (b - 1) \<le> 2 ^ p" using bb(1) n by linarith
  then have bp: "nat (b - 1) \<le> p" by simp
  have fl: "flog2 \<bar>of_int n :: rat\<bar> = b - 1"
    using flog2_of_int[OF pos] by (simp add: b_def flip: of_int_abs)
  have e: "max (flog2 \<bar>of_int n :: rat\<bar>) (1 - emax) - int p + 1 = b - int p"
    using fl b1 p by simp
  have ex: "\<exists>z. (of_int n :: rat) = of_int z * pow2 (b - int p)"
  proof (cases "b \<le> int p")
    case True
    define k where "k = nat (int p - b)"
    have "pow2 (b - int p) = 1 / 2 ^ k"
      using True by (cases "b = int p") (simp_all add: pow2_def k_def)
    then have "(of_int n :: rat) = of_int (n * 2 ^ k) * pow2 (b - int p)"
      by simp
    then show ?thesis by blast
  next
    case False
    then have bp1: "b = int p + 1" using bp b1 by linarith
    then have "2 ^ p \<le> \<bar>n\<bar>" using bb(1) by simp
    then have eq: "\<bar>n\<bar> = 2 ^ p" using n by simp
    obtain p' where p': "p = Suc p'" using p(1) by (cases p) simp_all
    have "n = 2 * (sgn n * 2 ^ p')"
      using eq p' by (cases "0 \<le> n") (simp_all add: sgn_if)
    then have "(of_int n :: rat) = of_int (sgn n * 2 ^ p') * 2"
      by (metis mult.commute of_int_mult of_int_numeral)
    moreover have "pow2 (b - int p) = 2"
      using bp1 by (simp add: pow2_def)
    ultimately show ?thesis by metis
  qed
  then obtain z where z: "(of_int n :: rat) = of_int z * pow2 (b - int p)" by blast
  have "\<bar>of_int n :: rat\<bar> \<le> 2 ^ p"
    using n by (metis of_int_abs of_int_le_iff of_int_numeral of_int_power)
  also have "\<dots> < 2 ^ nat (emax + 1)"
    using p by (intro power_strict_increasing) simp_all
  also have "\<dots> = pow2 (emax + 1)"
    using p by (simp add: pow2_def)
  finally have small: "\<bar>of_int n :: rat\<bar> < pow2 (emax + 1)" .
  have nz: "(of_int n :: rat) \<noteq> 0" using False by simp
  have z': "(of_int n :: rat)
      = of_int z * pow2 (max (flog2 \<bar>of_int n :: rat\<bar>) (1 - emax) - int p + 1)"
    unfolding e by (rule z)
  show ?thesis
    by (rule round_to_exact_unit[OF nz z' small])
qed

lemma round32_int: "\<bar>n\<bar> \<le> 16777216 \<Longrightarrow> round32 (of_int n) = Finite (of_int n)"
  unfolding round32_def by (rule round_to_int_exact) simp_all

lemma round64_int: "\<bar>n\<bar> \<le> 9007199254740992 \<Longrightarrow> round64 (of_int n) = Finite (of_int n)"
  unfolding round64_def by (rule round_to_int_exact) simp_all


lemma round32_numeral [simp]:
  "numeral k \<le> (16777216::int) \<Longrightarrow> round32 (numeral k) = Finite (numeral k)"
  "numeral k \<le> (16777216::int) \<Longrightarrow> round32 (- numeral k) = Finite (- numeral k)"
  "round32 0 = Finite 0" "round32 1 = Finite 1" "round32 (- 1) = Finite (- 1)"
  using round32_int[of "numeral k"] round32_int[of "- numeral k"] round32_int[of 0]
    round32_int[of 1] round32_int[of "- 1"]
  by simp_all

lemma round64_numeral [simp]:
  "numeral k \<le> (9007199254740992::int) \<Longrightarrow> round64 (numeral k) = Finite (numeral k)"
  "numeral k \<le> (9007199254740992::int) \<Longrightarrow> round64 (- numeral k) = Finite (- numeral k)"
  "round64 0 = Finite 0" "round64 1 = Finite 1" "round64 (- 1) = Finite (- 1)"
  using round64_int[of "numeral k"] round64_int[of "- numeral k"] round64_int[of 0]
    round64_int[of 1] round64_int[of "- 1"]
  by simp_all

section \<open>What the two routines compute\<close>

lemma upt_3: "[0..<3] = [0, 1, 2]"
  by (simp add: upt_rec)

lemma ones3_ref_sum: "ref_sum ieee_fpu (ones_input 3) 1 3 0 0 0 = Inr (Finite 9)"
proof -
  have "ref_sum ieee_fpu (ones_input 3) (int 1) (int 3) 0 0 0 = Inr (ref_val ieee_fpu (ones_input 3) 1 3 0 0 0)"
    by (rule ref_sum_pure[where W = 1 and H = 1 and M = 1])
       (simp_all add: ones_input_def wf3_def wf4_def)
  moreover have "ref_val ieee_fpu (ones_input 3) 1 3 0 0 0 = Finite 9"
    by (simp add: ref_val_def tap_def img_def ker_def ones_input_def ieee_fpu_def upt_3)
  ultimately show ?thesis by simp
qed

lemma ones3_stu_sum: "stu_sum ieee_fpu bld (ones_input 3) 1 3 0 0 0 = Inr (Finite 9)"
  by (simp add: stu_sum_def sc_channel_def sc_row3_def upt_3 for_loop_funs
      at3_def inside3_def flat3_def at_flat_def ones_input_def ieee_fpu_def
      mm_set_ps_def mm_set1_ps_def mm_mul_ps_def mm_dp_ps_def mm_cvtss_f32_def)


lemma upt_2: "[0..<2] = [0, 1]"
  by (simp add: upt_rec)

lemma upt_5: "[0..<5] = [0, 1, 2, 3, 4]"
  by (simp add: upt_rec)

lemma upt_1: "[0..<1] = [0]"
  by simp

lemma sc_row1_eq:
  fixes m c M C :: nat
  assumes "wf4 (kernels st)" "k0 (kernels st) = M" "k1 (kernels st) = C"
    "k2 (kernels st) = 1" "k3 (kernels st) = 1" "m < M" "c < C"
  shows "sc_row1 fp st 1 (int c + int m * int C) w h c 0 = mc_tap fp st m w h c 0 0"
proof -
  have "at_flat (cells4 (kernels st)) (int c + int m * int C)
        = at4 (kernels st) (int m) (int c) 0 0"
    using at_flat_kernel[of "kernels st" M C 1 m c 0 0] assms by simp
  then show ?thesis
    by (simp add: fun_eq_iff sc_row1_def mc_tap_def)
qed

lemma sc_channel_1_serial:
  fixes m c M C :: nat
  assumes "wf4 (kernels st)" "k0 (kernels st) = M" "k1 (kernels st) = C"
    "k2 (kernels st) = 1" "k3 (kernels st) = 1" "m < M" "c < C"
  shows "sc_channel fp Serial st 1 (1 * 1) (int m * (1 * 1 * int C)) w h c s
         = mc_window fp st 1 m w h c s"
  using sc_row1_eq[OF assms, of fp w h]
  by (simp add: sc_channel_def mc_window_def for_loop_funs)

lemma stu_sum_1_serial:
  fixes m M C :: nat
  assumes "wf4 (kernels st)" "k0 (kernels st) = M" "k1 (kernels st) = C"
    "k2 (kernels st) = 1" "k3 (kernels st) = 1" "m < M"
  shows "stu_sum fp Serial st (int C) 1 m w h = ref_sum fp st (int C) 1 m w h"
  unfolding stu_sum_def ref_sum_def upto_int_nat
  using assms by (intro for_loop_cong_body sc_channel_1_serial[where M = M]) simp_all

lemma sc_channel_1_openmp:
  fixes m w h c W H M C :: nat
  assumes "wf3 (image st)" "n0 (image st) = W + 1" "n1 (image st) = H + 1" "n2 (image st) = C"
    "wf4 (kernels st)" "k0 (kernels st) = M" "k1 (kernels st) = C"
    "k2 (kernels st) = 1" "k3 (kernels st) = 1"
    "m < M" "w < W" "h < H" "c < C"
  shows "sc_channel fp (OpenMP t j) st 1 (1 * 1) (int m * (1 * 1 * int C)) w h c s = Inr s"
proof -
  have "mc_tap fp st m w h c 0 0 j = Inr (d_add fp j (tap fp st m w h c 0 0))"
    using assms by (intro mc_tap_pure[where W = W and H = H and M = M and K = 1]) simp_all
  then show ?thesis
    using sc_row1_eq[of st M C m c fp w h] assms
    by (simp add: sc_channel_def for_loop_funs)
qed

lemma stu_sum_1_openmp:
  fixes m w h W H M C :: nat
  assumes "wf3 (image st)" "n0 (image st) = W + 1" "n1 (image st) = H + 1" "n2 (image st) = C"
    "wf4 (kernels st)" "k0 (kernels st) = M" "k1 (kernels st) = C"
    "k2 (kernels st) = 1" "k3 (kernels st) = 1"
    "m < M" "w < W" "h < H"
  shows "stu_sum fp (OpenMP t j) st (int C) 1 m w h = Inr (d_zero fp)"
proof -
  have "for_loop [0..<C] (sc_channel fp (OpenMP t j) st 1 (1 * 1) (int m * (1 * 1 * int C)) w h) s
        = Inr (fold (\<lambda>c s. s) [0..<C] s)" for s
    using assms
    by (intro for_loop_fold sc_channel_1_openmp[where W = W and H = H and M = M]) simp_all
  moreover have "fold (\<lambda>c s. s) xs s = s" for xs :: "nat list" and s :: 'b
    by (induction xs) simp_all
  ultimately show ?thesis
    by (simp add: stu_sum_def)
qed


lemma image_read:
  fixes w h c x y W H C K :: nat
  assumes "wf3 (image st)" "n0 (image st) = W + K" "n1 (image st) = H + K" "n2 (image st) = C"
    "w < W" "h < H" "c < C" "x < K" "y < K"
  shows "at3 (image st) (int w + int x) (int h + int y) (int c) = Inr (img st (w + x) (h + y) c)"
  using at3_inside[of "image st" "w + x" "h + y" c] assms by (simp add: img_def)

lemma kernel_read:
  fixes m c x y M C K :: nat
  assumes "wf4 (kernels st)" "k0 (kernels st) = M" "k1 (kernels st) = C"
    "k2 (kernels st) = K" "k3 (kernels st) = K" "m < M" "c < C" "x < K" "y < K"
  shows "at_flat (cells4 (kernels st))
           (int y + (int x * int K + (int c * (int K * int K) + int m * (int K * int K * int C))))
         = Inr (ker st m c x y)"
  using at_flat_kernel[OF assms] at4_inside[of "kernels st" m c x y] assms
  by (simp add: ker_def)

lemma sc_row3_pure:
  fixes m w h c x W H C M :: nat
  assumes im: "wf3 (image st)" "n0 (image st) = W + 3" "n1 (image st) = H + 3" "n2 (image st) = C"
    and ke: "wf4 (kernels st)" "k0 (kernels st) = M" "k1 (kernels st) = C"
    "k2 (kernels st) = 3" "k3 (kernels st) = 3"
    and r: "m < M" "w < W" "h < H" "c < C" "x < 3"
  shows "sc_row3 fp st 3 (int c * 9 + int m * (9 * int C)) w h c x s
         = Inr (d_add fp s (row3_val fp st m w h c x))"
proof -
  have i: "at3 (image st) (int w + int x) (int h + int y) (int c) = Inr (img st (w + x) (h + y) c)"
    if "y < 3" for y
    using im r that by (intro image_read[where W = W and H = H and K = 3]) simp_all
  have k: "at_flat (cells4 (kernels st)) (int y + (int x * 3 + (int c * 9 + int m * (9 * int C))))
           = Inr (ker st m c x y)" if "y < 3" for y
    using kernel_read[of st M C 3 m c x y] ke r that by simp
  show ?thesis
    unfolding sc_row3_def Let_def
    using i[of 0] i[of 1] i[of 2] k[of 0] k[of 1] k[of 2]
    by (simp add: row3_val_def mm_set_ps_def mm_set1_ps_def mm_mul_ps_def mm_dp_ps_def
        mm_cvtss_f32_def)
qed

lemma sc_row5_pure:
  fixes m w h c x W H C M :: nat
  assumes im: "wf3 (image st)" "n0 (image st) = W + 5" "n1 (image st) = H + 5" "n2 (image st) = C"
    and ke: "wf4 (kernels st)" "k0 (kernels st) = M" "k1 (kernels st) = C"
    "k2 (kernels st) = 5" "k3 (kernels st) = 5"
    and r: "m < M" "w < W" "h < H" "c < C" "x < 5"
  shows "sc_row5 fp st 5 (int c * 25 + int m * (25 * int C)) w h c x s
         = Inr (d_add fp s (row5_val fp st m w h c x))"
proof -
  have i: "at3 (image st) (int w + int x) (int h + int y) (int c) = Inr (img st (w + x) (h + y) c)"
    if "y < 5" for y
    using im r that by (intro image_read[where W = W and H = H and K = 5]) simp_all
  have k: "at_flat (cells4 (kernels st)) (int y + (int x * 5 + (int c * 25 + int m * (25 * int C))))
           = Inr (ker st m c x y)" if "y < 5" for y
    using kernel_read[of st M C 5 m c x y] ke r that by simp
  show ?thesis
    unfolding sc_row5_def Let_def
    using i[of 0] i[of 1] i[of 2] i[of 3] i[of 4] k[of 0] k[of 1] k[of 2] k[of 3] k[of 4]
    by (simp add: row5_val_def mm_set_pd_def mm_set_sd_def mm_mul_pd_def mm_mul_sd_def
        mm_add_pd_def mm_add_sd_def mm_unpackhi_pd_def mm_store_sd_def)
qed


lemma stu_sum_3:
  fixes m w h W H C M :: nat
  assumes im: "wf3 (image st)" "n0 (image st) = W + 3" "n1 (image st) = H + 3" "n2 (image st) = C"
    and ke: "wf4 (kernels st)" "k0 (kernels st) = M" "k1 (kernels st) = C"
    "k2 (kernels st) = 3" "k3 (kernels st) = 3"
    and r: "m < M" "w < W" "h < H"
  shows "stu_sum fp bld st (int C) 3 m w h = Inr (stu_val fp bld st C 3 m w h)"
proof -
  have ch: "sc_channel fp bld st 3 (3 * 3) (int m * (3 * 3 * int C)) w h c s
            = Inr (fold (\<lambda>x s. d_add fp s (row3_val fp st m w h c x)) [0..<3] s)"
    if "c < C" for c s
  proof -
    have "for_loop [0..<3] (sc_row3 fp st 3 (int c * 9 + int m * (9 * int C)) w h c) s
          = Inr (fold (\<lambda>x s. d_add fp s (row3_val fp st m w h c x)) [0..<3] s)"
      using im ke r that
      by (intro for_loop_fold sc_row3_pure[where W = W and H = H and M = M]) simp_all
    then show ?thesis
      by (simp add: sc_channel_def)
  qed
  have "stu_val fp bld st C 3 m w h
        = fold (\<lambda>c. fold (\<lambda>x s. d_add fp s (row3_val fp st m w h c x)) [0..<3]) [0..<C] (d_zero fp)"
    by (simp add: stu_val_def)
  moreover have "for_loop [0..<C] (sc_channel fp bld st 3 (3 * 3) (int m * (3 * 3 * int C)) w h)
          (d_zero fp)
        = Inr (fold (\<lambda>c. fold (\<lambda>x s. d_add fp s (row3_val fp st m w h c x)) [0..<3]) [0..<C]
                 (d_zero fp))"
    by (intro for_loop_fold ch) simp
  ultimately show ?thesis
    unfolding stu_sum_def upto_int_nat by simp
qed

lemma stu_sum_5:
  fixes m w h W H C M :: nat
  assumes im: "wf3 (image st)" "n0 (image st) = W + 5" "n1 (image st) = H + 5" "n2 (image st) = C"
    and ke: "wf4 (kernels st)" "k0 (kernels st) = M" "k1 (kernels st) = C"
    "k2 (kernels st) = 5" "k3 (kernels st) = 5"
    and r: "m < M" "w < W" "h < H"
  shows "stu_sum fp bld st (int C) 5 m w h = Inr (stu_val fp bld st C 5 m w h)"
proof -
  have ch: "sc_channel fp bld st 5 (5 * 5) (int m * (5 * 5 * int C)) w h c s
            = Inr (fold (\<lambda>x s. d_add fp s (row5_val fp st m w h c x)) [0..<5] s)"
    if "c < C" for c s
  proof -
    have "for_loop [0..<5] (sc_row5 fp st 5 (int c * 25 + int m * (25 * int C)) w h c) s
          = Inr (fold (\<lambda>x s. d_add fp s (row5_val fp st m w h c x)) [0..<5] s)"
      using im ke r that
      by (intro for_loop_fold sc_row5_pure[where W = W and H = H and M = M]) simp_all
    then show ?thesis
      by (simp add: sc_channel_def)
  qed
  have "stu_val fp bld st C 5 m w h
        = fold (\<lambda>c. fold (\<lambda>x s. d_add fp s (row5_val fp st m w h c x)) [0..<5]) [0..<C] (d_zero fp)"
    by (simp add: stu_val_def)
  moreover have "for_loop [0..<C] (sc_channel fp bld st 5 (5 * 5) (int m * (5 * 5 * int C)) w h)
          (d_zero fp)
        = Inr (fold (\<lambda>c. fold (\<lambda>x s. d_add fp s (row5_val fp st m w h c x)) [0..<5]) [0..<C]
                 (d_zero fp))"
    by (intro for_loop_fold ch) simp
  ultimately show ?thesis
    unfolding stu_sum_def upto_int_nat by simp
qed

lemma stu_sum_pure:
  fixes m w h W H C M K :: nat
  assumes K: "K \<in> {1, 3, 5, 7}"
    and im: "wf3 (image st)" "n0 (image st) = W + K" "n1 (image st) = H + K" "n2 (image st) = C"
    and ke: "wf4 (kernels st)" "k0 (kernels st) = M" "k1 (kernels st) = C"
    "k2 (kernels st) = K" "k3 (kernels st) = K"
    and r: "m < M" "w < W" "h < H"
  shows "stu_sum fp bld st (int C) (int K) m w h = Inr (stu_val fp bld st C K m w h)"
proof -
  consider "K = 1" | "K = 3" | "K = 5" | "K = 7" using K by auto
  then show ?thesis
  proof cases
    case 1
    show ?thesis
    proof (cases bld)
      case Serial
      have "stu_sum fp Serial st (int C) 1 m w h = ref_sum fp st (int C) 1 m w h"
        using ke r unfolding 1 by (intro stu_sum_1_serial[where M = M]) simp_all
      moreover have "ref_sum fp st (int C) (int 1) m w h = Inr (ref_val fp st C 1 m w h)"
        using im ke r unfolding 1 by (intro ref_sum_pure[where W = W and H = H and M = M]) simp_all
      ultimately show ?thesis
        unfolding 1 Serial by (simp add: stu_val_def)
    next
      case (OpenMP t j)
      have "stu_sum fp (OpenMP t j) st (int C) 1 m w h = Inr (d_zero fp)"
        using im ke r unfolding 1
        by (intro stu_sum_1_openmp[where W = W and H = H and M = M]) simp_all
      then show ?thesis
        unfolding 1 OpenMP by (simp add: stu_val_def)
    qed
  next
    case 2
    show ?thesis
      using stu_sum_3[of st W H C M m w h fp bld] im ke r unfolding 2 by simp
  next
    case 3
    show ?thesis
      using stu_sum_5[of st W H C M m w h fp bld] im ke r unfolding 3 by simp
  next
    case 4
    have "stu_sum fp bld st (int C) 7 m w h = ref_sum fp st (int C) 7 m w h"
      using ke r unfolding 4 by (intro stu_sum_7[where M = M]) simp_all
    moreover have "ref_sum fp st (int C) (int 7) m w h = Inr (ref_val fp st C 7 m w h)"
      using im ke r unfolding 4 by (intro ref_sum_pure[where W = W and H = H and M = M]) simp_all
    ultimately show ?thesis
      unfolding 4 by (simp add: stu_val_def)
  qed
qed

lemma multichannel_conv_result:
  assumes "valid_call st width height nchannels nkernels kernel_order"
  shows "multichannel_conv fp st width height nchannels nkernels kernel_order
         = Inr (filled (ref_out fp st (nat width) (nat height) (nat nchannels) (nat kernel_order))
                  (\<lambda>n. concat (map (replicate (nat nchannels)) [0..<n]))
                  (nat nkernels * nat width * nat height) st)"
proof -
  from assms obtain W H C M K :: nat where dims:
    "width = int W" "height = int H" "nchannels = int C" "nkernels = int M"
    "kernel_order = int K" and pos: "0 < W" "0 < H" "0 < C" "0 < M"
    and im: "wf3 (image st)" "n0 (image st) = W + K" "n1 (image st) = H + K" "n2 (image st) = C"
    and ke: "wf4 (kernels st)" "k0 (kernels st) = M" "k1 (kernels st) = C"
    "k2 (kernels st) = K" "k3 (kernels st) = K"
    and ou: "wf3 (outp st)" "n0 (outp st) = M" "n1 (outp st) = W" "n2 (outp st) = H"
    by (rule valid_call_nat)
  have len: "length (cells3 (outp st)) = M * W * H"
    using ou by (simp add: wf3_def)
  have ref: "ref_sum fp st (int C) (int K) m w h = Inr (ref_val fp st C K m w h)"
    if "m < M" "w < W" "h < H" for m w h
    using im ke that by (intro ref_sum_pure[where W = W and H = H and M = M]) simp_all
  have "multichannel_conv fp st (int W) (int H) (int C) (int M) (int K)
        = Inr (filled (\<lambda>n. f_of_d fp (case cell_of W H n of (m, w, h) \<Rightarrow> ref_val fp st C K m w h))
                 (\<lambda>n. concat (map (replicate C) [0..<n])) (M * W * H) st)"
    using len ou pos ref by (intro multichannel_conv_filled) simp_all
  then show ?thesis
    unfolding dims ref_out_def by simp
qed

lemma student_conv_result:
  assumes "valid_call st width height nchannels nkernels kernel_order"
    and nr: "\<not> data_race bld nkernels"
  shows "student_conv fp bld st width height nchannels nkernels kernel_order
         = Inr (filled (stu_out fp bld st (nat width) (nat height) (nat nchannels) (nat kernel_order))
                  (\<lambda>n. [0..<n]) (nat nkernels * nat width * nat height) st)"
proof -
  from assms(1) obtain W H C M K :: nat where dims:
    "width = int W" "height = int H" "nchannels = int C" "nkernels = int M"
    "kernel_order = int K" and pos: "0 < W" "0 < H" "0 < C" "0 < M"
    and K: "K \<in> {1, 3, 5, 7}"
    and im: "wf3 (image st)" "n0 (image st) = W + K" "n1 (image st) = H + K" "n2 (image st) = C"
    and ke: "wf4 (kernels st)" "k0 (kernels st) = M" "k1 (kernels st) = C"
    "k2 (kernels st) = K" "k3 (kernels st) = K"
    and ou: "wf3 (outp st)" "n0 (outp st) = M" "n1 (outp st) = W" "n2 (outp st) = H"
    by (rule valid_call_nat)
  have len: "length (cells3 (outp st)) = M * W * H"
    using ou by (simp add: wf3_def)
  have stu: "stu_sum fp bld st (int C) (int K) m w h = Inr (stu_val fp bld st C K m w h)"
    if "m < M" "w < W" "h < H" for m w h
    using K im ke that by (intro stu_sum_pure[where W = W and H = H and M = M]) simp_all
  have "student_conv fp bld st (int W) (int H) (int C) (int M) (int K)
        = Inr (filled (\<lambda>n. f_of_d fp (case cell_of W H n of (m, w, h) \<Rightarrow> stu_val fp bld st C K m w h))
                 (\<lambda>n. [0..<n]) (M * W * H) st)"
    using len stu pointers_ok_valid[OF assms(1)] nr[unfolded dims]
    by (intro student_conv_filled) simp_all
  then show ?thesis
    unfolding dims stu_out_def by simp
qed

lemma stu_out_order1_openmp:
  "K = 1 \<Longrightarrow> stu_out fp (OpenMP t j) st W H C K = (\<lambda>_. f_of_d fp (d_zero fp))"
  by (simp add: fun_eq_iff stu_out_def stu_val_def split: prod.splits)

lemma ones_input_fields [simp]:
  "cells3 (outp (ones_input K)) = [NaN]" "stores (ones_input K) = []"
  by (simp_all add: ones_input_def)

lemma stu_out_same:
  assumes "K = 7 \<or> K = 1 \<and> bld = Serial"
  shows "stu_out fp bld st W H C K = ref_out fp st W H C K"
  using assms by (auto simp: fun_eq_iff stu_out_def ref_out_def stu_val_def)

lemma same_output_if_same_out:
  assumes "valid_call st width height nchannels nkernels kernel_order"
    and "stu_out fp bld st (nat width) (nat height) (nat nchannels) (nat kernel_order)
         = ref_out fp st (nat width) (nat height) (nat nchannels) (nat kernel_order)"
    and "\<not> data_race bld nkernels"
  shows "\<exists>st_ref st_stu.
           multichannel_conv fp st width height nchannels nkernels kernel_order = Inr st_ref
           \<and> student_conv fp bld st width height nchannels nkernels kernel_order = Inr st_stu
           \<and> outp st_stu = outp st_ref"
  using multichannel_conv_result[OF assms(1), of fp]
    student_conv_result[OF assms(1,3), of fp] assms(2)
  by (simp add: outp_filled)

lemma filled_one_cell:
  assumes "cells3 (outp st) = [x]" "stores st = []"
  shows "filled f lg (Suc 0) st = st\<lparr>outp := (outp st)\<lparr>cells3 := [f 0]\<rparr>, stores := lg (Suc 0)\<rparr>"
  using assms by (simp add: filled_def)

section \<open>The checker as a sum over the cells\<close>

lemma for_loop_map: "for_loop (map g xs) body s = for_loop xs (\<lambda>i. body (g i)) s"
  by (induction xs arbitrary: s) (simp_all add: bind_err_def split: sum.splits)

lemma for_loop_flatten:
  "for_loop [0..<a] (\<lambda>i. for_loop [0..<b] (body i)) s
   = for_loop [0..<a * b] (\<lambda>n. body (n div b) (n mod b)) s"
proof (induction a arbitrary: s)
  case 0
  then show ?case by simp
next
  case (Suc a)
  have "[0..<a * b + b] = [0..<a * b] @ [a * b..<a * b + b]"
    by (rule upt_add_eq_append) simp
  moreover have "map (\<lambda>i. i + a * b) [0..<b] = [a * b..<b + a * b]"
    by (rule map_add_upt)
  moreover have "Suc a * b = a * b + b" "b + a * b = a * b + b"
    by simp_all
  ultimately have split: "[0..<Suc a * b] = [0..<a * b] @ map (\<lambda>i. i + a * b) [0..<b]"
    by (simp only:)
  have last: "for_loop (map (\<lambda>i. i + a * b) [0..<b]) (\<lambda>n. body (n div b) (n mod b)) s'
              = for_loop [0..<b] (body a) s'" for s'
    unfolding for_loop_map by (rule for_loop_cong_body) simp
  show ?case
    unfolding split for_loop_append last
    using Suc.IH by (simp add: for_loop_append for_loop_funs)
qed

lemma for_loop_guarded:
  "for_loop xs (\<lambda>n s. if ok n then Inr (g n s) else Inl e) s
   = (if list_all ok xs then Inr (fold g xs s) else Inl e)"
  by (induction xs arbitrary: s) simp_all

lemma cr_cell_flat:
  fixes D0 D1 D2 n :: nat
  assumes "wf3 result" "n0 result = D0" "n1 result = D1" "n2 result = D2"
    and "wf3 control" "n0 control = D0" "n1 control = D1" "n2 control = D2"
    and n: "n < D0 * (D1 * D2)"
  shows "cr_cell fp result control (n div (D1 * D2)) (n mod (D1 * D2) div D2) (n mod (D1 * D2) mod D2) s
         = (if d_ge fp (abs_diff fp (cells3 control ! n) (cells3 result ! n)) (d_zero fp)
            then Inr (d_add fp s (abs_diff fp (cells3 control ! n) (cells3 result ! n)))
            else Inl Assertion_failed)"
proof -
  let ?i = "n div (D1 * D2)" and ?j = "n mod (D1 * D2) div D2" and ?k = "n mod (D1 * D2) mod D2"
  have pos: "0 < D1 * D2" using n by (cases "D1 * D2 = 0") simp_all
  then have D2: "0 < D2" and D1: "0 < D1" by simp_all
  have i: "?i < D0" using n pos by (simp add: less_mult_imp_div_less mult.commute)
  have j: "?j < D1"
    using pos D2 by (simp add: less_mult_imp_div_less mult.commute)
  have k: "?k < D2" using D2 by simp
  have "?j * D2 + ?k = n mod (D1 * D2)"
    by (rule div_mult_mod_eq)
  moreover have "?i * (D1 * D2) + n mod (D1 * D2) = n"
    by (rule div_mult_mod_eq)
  ultimately have "?i * (D1 * D2) + (?j * D2 + ?k) = n"
    by (simp only:)
  then have flat: "?i * D1 * D2 + ?j * D2 + ?k = n"
    by (simp add: algebra_simps)
  have "at3 control (int ?i) (int ?j) (int ?k) = Inr (cells3 control ! n)"
    using at3_inside[of control ?i ?j ?k] assms(5-8) i j k flat by simp
  moreover have "at3 result (int ?i) (int ?j) (int ?k) = Inr (cells3 result ! n)"
    using at3_inside[of result ?i ?j ?k] assms(1-4) i j k flat by simp
  ultimately show ?thesis
    unfolding cr_cell_def abs_diff_def by (simp add: Let_def)
qed

lemma fold_nth_zip:
  assumes "length xs = n" "length ys = n"
  shows "fold (\<lambda>i. f (xs ! i) (ys ! i)) [0..<n] s = fold (\<lambda>(x, y). f x y) (zip xs ys) s"
proof -
  have "zip xs ys = map (\<lambda>i. (xs ! i, ys ! i)) [0..<n]"
    using assms by (intro nth_equalityI) simp_all
  then show ?thesis
    by (simp add: fold_map comp_def)
qed

lemma list_all_nth_zip:
  assumes "length xs = n" "length ys = n"
  shows "list_all (\<lambda>i. P (xs ! i) (ys ! i)) [0..<n] = list_all (\<lambda>(x, y). P x y) (zip xs ys)"
proof -
  have "zip xs ys = map (\<lambda>i. (xs ! i, ys ! i)) [0..<n]"
    using assms by (intro nth_equalityI) simp_all
  then show ?thesis
    by (simp add: list_all_iff)
qed

lemma check_result_sad:
  fixes D0 D1 D2 :: nat
  assumes "wf3 result" "n0 result = D0" "n1 result = D1" "n2 result = D2"
    and "wf3 control" "n0 control = D0" "n1 control = D1" "n2 control = D2"
  shows "check_result fp result control (int D0) (int D1) (int D2)
         = (if diffs_ok fp control result
            then Inr (sad fp control result,
                      if d_gt fp (sad fp control result) (d_epsilon fp) then Suspect else Acceptable)
            else Inl Assertion_failed)"
proof -
  let ?N = "D0 * (D1 * D2)"
  let ?d = "\<lambda>n. abs_diff fp (cells3 control ! n) (cells3 result ! n)"
  have len: "length (cells3 control) = ?N" "length (cells3 result) = ?N"
    using assms by (simp_all add: wf3_def)
  have "for_loop [0..<D0] (\<lambda>i. for_loop [0..<D1] (\<lambda>j. for_loop [0..<D2] (cr_cell fp result control i j))) s
        = for_loop [0..<D0] (\<lambda>i. for_loop [0..<D1 * D2]
             (\<lambda>n. cr_cell fp result control i (n div D2) (n mod D2))) s" for s
    by (rule for_loop_cong_body) (rule for_loop_flatten)
  also have "\<dots> (d_zero fp) = for_loop [0..<?N]
      (\<lambda>n. cr_cell fp result control (n div (D1 * D2)) (n mod (D1 * D2) div D2) (n mod (D1 * D2) mod D2))
      (d_zero fp)"
    by (rule for_loop_flatten)
  also have "\<dots> = for_loop [0..<?N]
      (\<lambda>n s. if d_ge fp (?d n) (d_zero fp) then Inr (d_add fp s (?d n)) else Inl Assertion_failed)
      (d_zero fp)"
    using assms by (intro for_loop_cong_body cr_cell_flat[where ?D0.0 = D0]) simp_all
  also have "\<dots> = (if list_all (\<lambda>n. d_ge fp (?d n) (d_zero fp)) [0..<?N]
                     then Inr (fold (\<lambda>n s. d_add fp s (?d n)) [0..<?N] (d_zero fp))
                     else Inl Assertion_failed)"
    by (rule for_loop_guarded)
  also have "list_all (\<lambda>n. d_ge fp (?d n) (d_zero fp)) [0..<?N] = diffs_ok fp control result"
    unfolding diffs_ok_def
    using list_all_nth_zip[OF len, of "\<lambda>c r. d_ge fp (abs_diff fp c r) (d_zero fp)"] .
  also have "fold (\<lambda>n s. d_add fp s (?d n)) [0..<?N] (d_zero fp) = sad fp control result"
    unfolding sad_def
    using fold_nth_zip[OF len, of "\<lambda>c r s. d_add fp s (abs_diff fp c r)" "d_zero fp"] .
  finally show ?thesis
    unfolding check_result_def upto_int_nat by simp
qed

lemma check_result_nat:
  "check_result fp result control dim0 dim1 dim2
   = check_result fp result control (int (nat dim0)) (int (nat dim1)) (int (nat dim2))"
  by (simp add: check_result_def upto_int_def)

lemma round_to_not_NaN: "round_to p emax q \<noteq> NaN"
  by (simp add: round_to_def Let_def)

lemma ieee_abs_round_nonneg: "ieee_le (Finite 0) (ieee_abs (round_to p emax q))"
  by (cases "round_to p emax q") (simp_all add: round_to_not_NaN)

lemma ieee_abs_diff_finite:
  "ieee_finite c \<Longrightarrow> ieee_finite r \<Longrightarrow> d_ge ieee_fpu (abs_diff ieee_fpu c r) (d_zero ieee_fpu)"
  by (cases c; cases r) (simp_all add: abs_diff_def ieee_fpu_def round32_def ieee_abs_round_nonneg)

section \<open>Integer data: every operation is exact\<close>

lemma int_valued_D:
  assumes "int_valued A v"
  shows "v = Finite (of_int (ieee_int v))" "\<bar>ieee_int v\<bar> \<le> A"
  using assms by (auto simp: int_valued_def ieee_int_def split: ieee.splits)

lemma addsD:
  assumes "adds g d b" "\<bar>a\<bar> + b \<le> 9007199254740992"
  shows "g (Finite (of_int a)) = Finite (of_int (a + d))"
  using assms unfolding adds_def by blast

lemma adds_term:
  assumes "\<bar>t\<bar> \<le> b"
  shows "adds (\<lambda>s. ieee_add round64 s (Finite (of_int t))) t b"
proof -
  have "ieee_add round64 (Finite (of_int a)) (Finite (of_int t)) = Finite (of_int (a + t))"
    if "\<bar>a\<bar> + b \<le> 9007199254740992" for a
  proof -
    have "\<bar>a + t\<bar> \<le> 9007199254740992" using that assms by linarith
    then show ?thesis
      using round64_int[of "a + t"] by simp
  qed
  then show ?thesis
    using assms by (simp add: adds_def)
qed

lemma adds_fold:
  assumes "\<And>i. i \<in> set xs \<Longrightarrow> adds (g i) (d i) b"
  shows "adds (fold g xs) (\<Sum>i\<leftarrow>xs. d i) (int (length xs) * b)"
  using assms
proof (induction xs)
  case Nil
  then show ?case by (simp add: adds_def)
next
  case (Cons i xs)
  have gi: "adds (g i) (d i) b" using Cons.prems by simp
  have rest: "adds (fold g xs) (\<Sum>i\<leftarrow>xs. d i) (int (length xs) * b)"
    using Cons by simp
  have b0: "0 \<le> b" using gi by (auto simp: adds_def)
  have "\<bar>d i + (\<Sum>i\<leftarrow>xs. d i)\<bar> \<le> int (length (i # xs)) * b"
    using gi rest by (auto simp: adds_def algebra_simps)
  moreover have "fold g (i # xs) (Finite (of_int a)) = Finite (of_int (a + (d i + (\<Sum>i\<leftarrow>xs. d i))))"
    if a: "\<bar>a\<bar> + int (length (i # xs)) * b \<le> 9007199254740992" for a
  proof -
    have "0 \<le> int (length xs) * b" using b0 by simp
    then have "\<bar>a\<bar> + b \<le> 9007199254740992"
      using a by (simp add: algebra_simps)
    then have 1: "g i (Finite (of_int a)) = Finite (of_int (a + d i))"
      by (rule addsD[OF gi])
    have "\<bar>a + d i\<bar> + int (length xs) * b \<le> 9007199254740992"
      using a gi by (auto simp: adds_def algebra_simps)
    then have "fold g xs (Finite (of_int (a + d i))) = Finite (of_int (a + d i + (\<Sum>i\<leftarrow>xs. d i)))"
      by (rule addsD[OF rest])
    moreover have "a + d i + (\<Sum>i\<leftarrow>xs. d i) = a + (d i + (\<Sum>i\<leftarrow>xs. d i))"
      by simp
    ultimately show ?thesis
      using 1 by (simp only: fold_simps comp_apply)
  qed
  ultimately show ?case
    by (simp add: adds_def)
qed

lemma adds_apply:
  assumes "adds g d b" "b \<le> 9007199254740992"
  shows "g (Finite 0) = Finite (of_int d)"
  using assms by (auto simp: adds_def dest!: spec[of _ 0])


lemma mul32_int:
  "\<bar>a * b\<bar> \<le> 16777216 \<Longrightarrow>
   ieee_mul round32 (Finite (of_int a)) (Finite (of_int b)) = Finite (of_int (a * b))"
  using round32_int[of "a * b"] by simp

lemma add32_int:
  "\<bar>a + b\<bar> \<le> 16777216 \<Longrightarrow>
   ieee_add round32 (Finite (of_int a)) (Finite (of_int b)) = Finite (of_int (a + b))"
  using round32_int[of "a + b"] by simp

lemma mul64_int:
  "\<bar>a * b\<bar> \<le> 9007199254740992 \<Longrightarrow>
   ieee_mul round64 (Finite (of_int a)) (Finite (of_int b)) = Finite (of_int (a * b))"
  using round64_int[of "a * b"] by simp

lemma add64_int:
  "\<bar>a + b\<bar> \<le> 9007199254740992 \<Longrightarrow>
   ieee_add round64 (Finite (of_int a)) (Finite (of_int b)) = Finite (of_int (a + b))"
  using round64_int[of "a + b"] by simp

lemma abs_mult_le:
  fixes a k A B :: int
  assumes "\<bar>a\<bar> \<le> A" "\<bar>k\<bar> \<le> B"
  shows "\<bar>a * k\<bar> \<le> A * B"
proof -
  have "\<bar>a\<bar> * \<bar>k\<bar> \<le> A * B"
    using assms by (intro mult_mono) simp_all
  then show ?thesis by (simp add: abs_mult)
qed

lemma small_in_range:
  fixes m w h c x y W H C M K :: nat
  assumes sm: "small_data A B st"
    and im: "wf3 (image st)" "n0 (image st) = W + K" "n1 (image st) = H + K" "n2 (image st) = C"
    and ke: "wf4 (kernels st)" "k0 (kernels st) = M" "k1 (kernels st) = C"
    "k2 (kernels st) = K" "k3 (kernels st) = K"
    and r: "m < M" "w < W" "h < H" "c < C" "x < K" "y < K"
  shows "int_valued A (img st (w + x) (h + y) c)" "\<bar>sint (ker st m c x y)\<bar> \<le> B"
    "\<bar>itap st m w h c x y\<bar> \<le> A * B"
proof -
  have "(w + x) * (H + K) * C + (h + y) * C + c < (W + K) * (H + K) * C"
    using r by (intro flat_bound3) simp_all
  then have "img st (w + x) (h + y) c \<in> set (cells3 (image st))"
    unfolding img_def using im by (intro nth_mem) (simp add: wf3_def)
  then show 1: "int_valued A (img st (w + x) (h + y) c)"
    using sm by (simp add: small_data_def list_all_iff)
  have "m * C * K * K + c * K * K + x * K + y < M * C * K * K"
    using r by (intro flat_bound4) simp_all
  then have "ker st m c x y \<in> set (cells4 (kernels st))"
    unfolding ker_def using ke by (intro nth_mem) (simp add: wf4_def)
  then show 2: "\<bar>sint (ker st m c x y)\<bar> \<le> B"
    using sm by (simp add: small_data_def list_all_iff)
  show "\<bar>itap st m w h c x y\<bar> \<le> A * B"
    unfolding itap_def using int_valued_D(2)[OF 1] 2 by (rule abs_mult_le)
qed

lemma float_product_exact:
  assumes "int_valued A v" "\<bar>sint k\<bar> \<le> B" "A * B \<le> 16777216"
  shows "f_mul ieee_fpu v (f_of_i16 ieee_fpu k) = Finite (of_int (ieee_int v * sint k))"
proof -
  have "\<bar>ieee_int v * sint k\<bar> \<le> 16777216"
    using abs_mult_le[OF int_valued_D(2)[OF assms(1)] assms(2)] assms(3) by simp
  then have "ieee_mul round32 (Finite (of_int (ieee_int v))) (Finite (of_int (sint k)))
             = Finite (of_int (ieee_int v * sint k))"
    by (rule mul32_int)
  then show ?thesis
    using int_valued_D(1)[OF assms(1)] by (simp add: ieee_fpu_def)
qed

lemma double_product_exact:
  assumes "int_valued A v" "\<bar>sint k\<bar> \<le> B" "A * B \<le> 9007199254740992"
  shows "d_mul ieee_fpu (d_of_f ieee_fpu v) (d_of_i16 ieee_fpu k)
         = Finite (of_int (ieee_int v * sint k))"
proof -
  have "\<bar>ieee_int v * sint k\<bar> \<le> 9007199254740992"
    using abs_mult_le[OF int_valued_D(2)[OF assms(1)] assms(2)] assms(3) by simp
  then have "ieee_mul round64 (Finite (of_int (ieee_int v))) (Finite (of_int (sint k)))
             = Finite (of_int (ieee_int v * sint k))"
    by (rule mul64_int)
  then show ?thesis
    using int_valued_D(1)[OF assms(1)] by (simp add: ieee_fpu_def)
qed

lemma adds_ieee:
  assumes "v = Finite (of_int t)" "\<bar>t\<bar> \<le> b"
  shows "adds (\<lambda>s. d_add ieee_fpu s v) t b"
  using adds_term[OF assms(2)] assms(1) by (simp add: ieee_fpu_def)


lemma shapedD:
  assumes "shaped st W H C M K"
  shows "wf3 (image st)" "n0 (image st) = W + K" "n1 (image st) = H + K" "n2 (image st) = C"
    "wf4 (kernels st)" "k0 (kernels st) = M" "k1 (kernels st) = C"
    "k2 (kernels st) = K" "k3 (kernels st) = K"
  using assms by (simp_all add: shaped_def)

lemma small_shaped:
  assumes "small_data A B st" "shaped st W H C M K"
    "m < M" "w < W" "h < H" "c < C" "x < K" "y < K"
  shows "int_valued A (img st (w + x) (h + y) c)" "\<bar>sint (ker st m c x y)\<bar> \<le> B"
    "\<bar>itap st m w h c x y\<bar> \<le> A * B"
  using small_in_range[OF assms(1) shapedD[OF assms(2)] assms(3-8)] by simp_all

lemma tap_exact:
  assumes "small_data A B st" "shaped st W H C M K" "A * B \<le> 16777216"
    "m < M" "w < W" "h < H" "c < C" "x < K" "y < K"
  shows "tap ieee_fpu st m w h c x y = Finite (of_int (itap st m w h c x y))"
proof -
  have "f_mul ieee_fpu (img st (w + x) (h + y) c) (f_of_i16 ieee_fpu (ker st m c x y))
        = Finite (of_int (itap st m w h c x y))"
    unfolding itap_def
    using small_shaped(1,2)[OF assms(1,2,4-9)] assms(3) by (rule float_product_exact)
  then show ?thesis
    by (simp add: tap_def ieee_fpu_def)
qed

lemma ref_val_exact:
  assumes sm: "small_data A B st" and sh: "shaped st W H C M K"
    and ab: "A * B \<le> 16777216"
    and tot: "int C * (int K * (int K * (A * B))) \<le> 9007199254740992"
    and r: "m < M" "w < W" "h < H"
  shows "ref_val ieee_fpu st C K m w h = Finite (of_int (isum st C K m w h))"
proof -
  have t: "adds (\<lambda>s. d_add ieee_fpu s (tap ieee_fpu st m w h c x y)) (itap st m w h c x y) (A * B)"
    if "c < C" "x < K" "y < K" for c x y
    using tap_exact[OF sm sh ab r that] small_shaped(3)[OF sm sh r that] by (rule adds_ieee)
  have row: "adds (fold (\<lambda>y s. d_add ieee_fpu s (tap ieee_fpu st m w h c x y)) [0..<K])
               (\<Sum>y\<leftarrow>[0..<K]. itap st m w h c x y) (int K * (A * B))"
    if "c < C" "x < K" for c x
    using adds_fold[of "[0..<K]" "\<lambda>y s. d_add ieee_fpu s (tap ieee_fpu st m w h c x y)"
        "\<lambda>y. itap st m w h c x y" "A * B"] t[OF that] by simp
  have win: "adds (fold (\<lambda>x. fold (\<lambda>y s. d_add ieee_fpu s (tap ieee_fpu st m w h c x y)) [0..<K]) [0..<K])
               (\<Sum>x\<leftarrow>[0..<K]. \<Sum>y\<leftarrow>[0..<K]. itap st m w h c x y) (int K * (int K * (A * B)))"
    if "c < C" for c
    using adds_fold[of "[0..<K]"
        "\<lambda>x. fold (\<lambda>y s. d_add ieee_fpu s (tap ieee_fpu st m w h c x y)) [0..<K]"
        "\<lambda>x. \<Sum>y\<leftarrow>[0..<K]. itap st m w h c x y" "int K * (A * B)"] row[OF that] by simp
  have "adds (fold (\<lambda>c. fold (\<lambda>x. fold (\<lambda>y s. d_add ieee_fpu s (tap ieee_fpu st m w h c x y)) [0..<K]) [0..<K]) [0..<C])
          (isum st C K m w h) (int C * (int K * (int K * (A * B))))"
    unfolding isum_def
    using adds_fold[of "[0..<C]"
        "\<lambda>c. fold (\<lambda>x. fold (\<lambda>y s. d_add ieee_fpu s (tap ieee_fpu st m w h c x y)) [0..<K]) [0..<K]"
        "\<lambda>c. \<Sum>x\<leftarrow>[0..<K]. \<Sum>y\<leftarrow>[0..<K]. itap st m w h c x y" "int K * (int K * (A * B))"]
      win by simp
  from adds_apply[OF this tot] show ?thesis
    by (simp add: ref_val_def ieee_fpu_def)
qed


lemma row3_exact:
  assumes sm: "small_data A B st" and sh: "shaped st W H C M 3"
    and ab: "3 * (A * B) \<le> 16777216"
    and r: "m < M" "w < W" "h < H" "c < C" "x < 3"
  shows "row3_val ieee_fpu st m w h c x
         = Finite (of_int (\<Sum>y\<leftarrow>[0..<3]. itap st m w h c x y))"
    and "\<bar>\<Sum>y\<leftarrow>[0..<3]. itap st m w h c x y\<bar> \<le> 3 * (A * B)"
proof -
  have b: "\<bar>itap st m w h c x y\<bar> \<le> A * B" if "y < 3" for y
    using small_shaped(3)[OF sm sh r that] .
  have ab0: "0 \<le> A * B" using b[of 0] by simp
  then have ab1: "A * B \<le> 16777216" using ab by simp
  have p: "f_mul ieee_fpu (img st (w + x) (h + y) c) (f_of_i16 ieee_fpu (ker st m c x y))
           = Finite (of_int (itap st m w h c x y))" if "y < 3" for y
    unfolding itap_def
    using small_shaped(1,2)[OF sm sh r that] ab1 by (rule float_product_exact)
  let ?t0 = "itap st m w h c x 0" and ?t1 = "itap st m w h c x 1" and ?t2 = "itap st m w h c x 2"
  have b0: "\<bar>?t0\<bar> \<le> A * B" and b1: "\<bar>?t1\<bar> \<le> A * B" and b2: "\<bar>?t2\<bar> \<le> A * B"
    using b[of 0] b[of 1] b[of 2] by simp_all
  have one: "ieee_mul round32 (Finite (of_int t)) (Finite 1) = Finite (of_int t)"
    if "\<bar>t\<bar> \<le> A * B" for t
    using mul32_int[of t 1] that ab1 by simp
  have s01: "ieee_add round32 (Finite (of_int ?t0)) (Finite (of_int ?t1)) = Finite (of_int (?t0 + ?t1))"
    using b0 b1 ab by (intro add32_int) linarith
  have s2: "ieee_add round32 (Finite (of_int ?t2)) (Finite 0) = Finite (of_int ?t2)"
    using add32_int[of ?t2 0] b2 ab1 by simp
  have s: "ieee_add round32 (Finite (of_int (?t0 + ?t1))) (Finite (of_int ?t2))
           = Finite (of_int (?t0 + ?t1 + ?t2))"
    using b0 b1 b2 ab by (intro add32_int) linarith
  have "row3_val ieee_fpu st m w h c x = Finite (of_int (?t0 + ?t1 + ?t2))"
    unfolding row3_val_def
    using p[of 0] p[of 1] p[of 2] one[OF b0] one[OF b1] one[OF b2] s01 s2 s
    by (simp add: ieee_fpu_def)
  then show "row3_val ieee_fpu st m w h c x
         = Finite (of_int (\<Sum>y\<leftarrow>[0..<3]. itap st m w h c x y))"
    by (simp add: upt_3)
  show "\<bar>\<Sum>y\<leftarrow>[0..<3]. itap st m w h c x y\<bar> \<le> 3 * (A * B)"
    using b0 b1 b2 by (simp add: upt_3)
qed

lemma row5_exact:
  assumes sm: "small_data A B st" and sh: "shaped st W H C M 5"
    and ab: "5 * (A * B) \<le> 9007199254740992"
    and r: "m < M" "w < W" "h < H" "c < C" "x < 5"
  shows "row5_val ieee_fpu st m w h c x
         = Finite (of_int (\<Sum>y\<leftarrow>[0..<5]. itap st m w h c x y))"
    and "\<bar>\<Sum>y\<leftarrow>[0..<5]. itap st m w h c x y\<bar> \<le> 5 * (A * B)"
proof -
  have b: "\<bar>itap st m w h c x y\<bar> \<le> A * B" if "y < 5" for y
    using small_shaped(3)[OF sm sh r that] .
  have ab0: "0 \<le> A * B" using b[of 0] by simp
  then have ab1: "A * B \<le> 9007199254740992" using ab by simp
  have p: "d_mul ieee_fpu (d_of_f ieee_fpu (img st (w + x) (h + y) c))
             (d_of_i16 ieee_fpu (ker st m c x y))
           = Finite (of_int (itap st m w h c x y))" if "y < 5" for y
    unfolding itap_def
    using small_shaped(1,2)[OF sm sh r that] ab1 by (rule double_product_exact)
  let ?t0 = "itap st m w h c x 0" and ?t1 = "itap st m w h c x 1" and ?t2 = "itap st m w h c x 2"
    and ?t3 = "itap st m w h c x 3" and ?t4 = "itap st m w h c x 4"
  have b0: "\<bar>?t0\<bar> \<le> A * B" and b1: "\<bar>?t1\<bar> \<le> A * B" and b2: "\<bar>?t2\<bar> \<le> A * B"
    and b3: "\<bar>?t3\<bar> \<le> A * B" and b4: "\<bar>?t4\<bar> \<le> A * B"
    using b[of 0] b[of 1] b[of 2] b[of 3] b[of 4] by simp_all
  have s31: "ieee_add round64 (Finite (of_int ?t3)) (Finite (of_int ?t1)) = Finite (of_int (?t3 + ?t1))"
    using b3 b1 ab by (intro add64_int) linarith
  have s42: "ieee_add round64 (Finite (of_int ?t4)) (Finite (of_int ?t2)) = Finite (of_int (?t4 + ?t2))"
    using b4 b2 ab by (intro add64_int) linarith
  have s042: "ieee_add round64 (Finite (of_int ?t0)) (Finite (of_int (?t4 + ?t2)))
              = Finite (of_int (?t0 + (?t4 + ?t2)))"
    using b0 b4 b2 ab by (intro add64_int) linarith
  have s: "ieee_add round64 (Finite (of_int (?t3 + ?t1))) (Finite (of_int (?t0 + (?t4 + ?t2))))
           = Finite (of_int (?t3 + ?t1 + (?t0 + (?t4 + ?t2))))"
    using b0 b1 b2 b3 b4 ab by (intro add64_int) linarith
  have "row5_val ieee_fpu st m w h c x = Finite (of_int (?t3 + ?t1 + (?t0 + (?t4 + ?t2))))"
    unfolding row5_val_def Let_def
    using p[of 0] p[of 1] p[of 2] p[of 3] p[of 4] s31 s42 s042 s
    by (simp add: ieee_fpu_def)
  then show "row5_val ieee_fpu st m w h c x
         = Finite (of_int (\<Sum>y\<leftarrow>[0..<5]. itap st m w h c x y))"
    by (simp add: upt_5)
  show "\<bar>\<Sum>y\<leftarrow>[0..<5]. itap st m w h c x y\<bar> \<le> 5 * (A * B)"
    using b0 b1 b2 b3 b4 by (simp add: upt_5)
qed


lemma stu_val_exact_3:
  assumes sm: "small_data A B st" and sh: "shaped st W H C M 3"
    and ab: "3 * (A * B) \<le> 16777216"
    and tot: "int C * (3 * (3 * (A * B))) \<le> 9007199254740992"
    and r: "m < M" "w < W" "h < H"
  shows "stu_val ieee_fpu bld st C 3 m w h = Finite (of_int (isum st C 3 m w h))"
proof -
  have row: "adds (\<lambda>s. d_add ieee_fpu s (row3_val ieee_fpu st m w h c x))
               (\<Sum>y\<leftarrow>[0..<3]. itap st m w h c x y) (3 * (A * B))"
    if "c < C" "x < 3" for c x
    using row3_exact[OF sm sh ab r that] by (rule adds_ieee)
  have win: "adds (fold (\<lambda>x s. d_add ieee_fpu s (row3_val ieee_fpu st m w h c x)) [0..<3])
               (\<Sum>x\<leftarrow>[0..<3]. \<Sum>y\<leftarrow>[0..<3]. itap st m w h c x y) (3 * (3 * (A * B)))"
    if "c < C" for c
    using adds_fold[of "[0..<3]" "\<lambda>x s. d_add ieee_fpu s (row3_val ieee_fpu st m w h c x)"
        "\<lambda>x. \<Sum>y\<leftarrow>[0..<3]. itap st m w h c x y" "3 * (A * B)"] row[OF that] by simp
  have "adds (fold (\<lambda>c. fold (\<lambda>x s. d_add ieee_fpu s (row3_val ieee_fpu st m w h c x)) [0..<3]) [0..<C])
          (isum st C 3 m w h) (int C * (3 * (3 * (A * B))))"
    unfolding isum_def
    using adds_fold[of "[0..<C]"
        "\<lambda>c. fold (\<lambda>x s. d_add ieee_fpu s (row3_val ieee_fpu st m w h c x)) [0..<3]"
        "\<lambda>c. \<Sum>x\<leftarrow>[0..<3]. \<Sum>y\<leftarrow>[0..<3]. itap st m w h c x y" "3 * (3 * (A * B))"]
      win by simp
  from adds_apply[OF this tot] show ?thesis
    by (simp add: stu_val_def ieee_fpu_def)
qed

lemma stu_val_exact_5:
  assumes sm: "small_data A B st" and sh: "shaped st W H C M 5"
    and tot: "int C * (5 * (5 * (A * B))) \<le> 9007199254740992"
    and C: "0 < C"
    and r: "m < M" "w < W" "h < H"
  shows "stu_val ieee_fpu bld st C 5 m w h = Finite (of_int (isum st C 5 m w h))"
proof -
  have ab0: "0 \<le> A * B"
    using small_shaped(3)[OF sm sh r C, of 0 0] by simp
  define P where "P = A * B"
  have "1 * (25 * P) \<le> int C * (25 * P)"
    using C ab0 unfolding P_def by (intro mult_right_mono) simp_all
  moreover have "int C * (5 * (5 * P)) = int C * (25 * P)"
    by simp
  ultimately have "5 * P \<le> 9007199254740992"
    using tot ab0 unfolding P_def[symmetric] by linarith
  then have ab: "5 * (A * B) \<le> 9007199254740992"
    unfolding P_def .
  have row: "adds (\<lambda>s. d_add ieee_fpu s (row5_val ieee_fpu st m w h c x))
               (\<Sum>y\<leftarrow>[0..<5]. itap st m w h c x y) (5 * (A * B))"
    if "c < C" "x < 5" for c x
    using row5_exact[OF sm sh ab r that] by (rule adds_ieee)
  have win: "adds (fold (\<lambda>x s. d_add ieee_fpu s (row5_val ieee_fpu st m w h c x)) [0..<5])
               (\<Sum>x\<leftarrow>[0..<5]. \<Sum>y\<leftarrow>[0..<5]. itap st m w h c x y) (5 * (5 * (A * B)))"
    if "c < C" for c
    using adds_fold[of "[0..<5]" "\<lambda>x s. d_add ieee_fpu s (row5_val ieee_fpu st m w h c x)"
        "\<lambda>x. \<Sum>y\<leftarrow>[0..<5]. itap st m w h c x y" "5 * (A * B)"] row[OF that] by simp
  have "adds (fold (\<lambda>c. fold (\<lambda>x s. d_add ieee_fpu s (row5_val ieee_fpu st m w h c x)) [0..<5]) [0..<C])
          (isum st C 5 m w h) (int C * (5 * (5 * (A * B))))"
    unfolding isum_def
    using adds_fold[of "[0..<C]"
        "\<lambda>c. fold (\<lambda>x s. d_add ieee_fpu s (row5_val ieee_fpu st m w h c x)) [0..<5]"
        "\<lambda>c. \<Sum>x\<leftarrow>[0..<5]. \<Sum>y\<leftarrow>[0..<5]. itap st m w h c x y" "5 * (5 * (A * B))"]
      win by simp
  from adds_apply[OF this tot] show ?thesis
    by (simp add: stu_val_def ieee_fpu_def)
qed

lemma stu_val_exact:
  assumes sm: "small_data A B st" and sh: "shaped st W H C M K"
    and K: "K \<in> {3, 5, 7} \<or> K = 1 \<and> bld = Serial"
    and ab: "3 * (A * B) \<le> 16777216"
    and tot: "int C * (int K * (int K * (A * B))) \<le> 9007199254740992"
    and C: "0 < C"
    and r: "m < M" "w < W" "h < H"
  shows "stu_val ieee_fpu bld st C K m w h = Finite (of_int (isum st C K m w h))"
proof -
  have K0: "0 < K" using K by auto
  have ab0: "0 \<le> A * B"
    using small_shaped(3)[OF sm sh r C K0 K0] by simp
  then have ab1: "A * B \<le> 16777216" using ab by simp
  consider "K = 3" | "K = 5" | "K = 7" | "K = 1" "bld = Serial" using K by auto
  then show ?thesis
  proof cases
    case 1
    show ?thesis
      using stu_val_exact_3[of A B st W H C M m w h bld] sm sh ab tot r unfolding 1 by simp
  next
    case 2
    show ?thesis
      using stu_val_exact_5[of A B st W H C M m w h bld] sm sh tot C r unfolding 2 by simp
  next
    case 3
    have "stu_val ieee_fpu bld st C K m w h = ref_val ieee_fpu st C K m w h"
      unfolding 3 by (simp add: stu_val_def)
    then show ?thesis
      using ref_val_exact[OF sm sh ab1 tot r] by simp
  next
    case 4
    have "stu_val ieee_fpu bld st C K m w h = ref_val ieee_fpu st C K m w h"
      unfolding 4 by (simp add: stu_val_def)
    then show ?thesis
      using ref_val_exact[OF sm sh ab1 tot r] by simp
  qed
qed


lemma pow2_mono:
  assumes "a \<le> b"
  shows "pow2 a \<le> pow2 b"
proof -
  consider "0 \<le> a" | "a < 0" "0 \<le> b" | "b < 0" using assms by linarith
  then show ?thesis
  proof cases
    case 1
    then have "(2::rat) ^ nat a \<le> 2 ^ nat b"
      using assms by (intro power_increasing) simp_all
    then show ?thesis using 1 assms by (simp add: pow2_def)
  next
    case 2
    have "1 / (2::rat) ^ nat (- a) \<le> 1" by simp
    also have "\<dots> \<le> 2 ^ nat b" by simp
    finally show ?thesis using 2 by (simp add: pow2_def)
  next
    case 3
    have "(2::rat) ^ nat (- b) \<le> 2 ^ nat (- a)"
      using assms by (intro power_increasing) simp_all
    then have "1 / (2::rat) ^ nat (- a) \<le> 1 / 2 ^ nat (- b)"
      by (intro divide_left_mono) simp_all
    then show ?thesis using 3 assms by (simp add: pow2_def)
  qed
qed

lemma rne_near: "\<bar>of_int (rne r) :: rat\<bar> \<le> \<bar>r\<bar> + 1"
proof -
  have "rne r = \<lfloor>r\<rfloor> \<or> rne r = \<lfloor>r\<rfloor> + 1"
    by (simp add: rne_def Let_def)
  moreover have "of_int \<lfloor>r\<rfloor> \<le> r" "r < of_int \<lfloor>r\<rfloor> + 1"
    by linarith+
  ultimately show ?thesis
    by (elim disjE) (simp_all, linarith+)
qed

lemma round32_int_finite:
  assumes "\<bar>n\<bar> \<le> 9007199254740992"
  shows "ieee_finite (round32 (of_int n))"
proof (cases "n = 0")
  case True
  then show ?thesis by (simp add: round32_def round_to_def)
next
  case False
  let ?q = "of_int n :: rat"
  define e where "e = max (flog2 \<bar>?q\<bar>) (1 - 127)"
  define u where "u = pow2 (e - int 24 + 1)"
  define v where "v = of_int (rne (?q / u)) * u"
  have pos: "0 < \<bar>n\<bar>" using False by simp
  have "\<bar>n\<bar> < 2 ^ nat 54" using assms by simp
  then have "bitlen \<bar>n\<bar> \<le> 54"
    by (simp add: bitlen_le_iff_power)
  moreover have "flog2 \<bar>?q\<bar> = bitlen \<bar>n\<bar> - 1"
    using flog2_of_int[OF pos] by (simp flip: of_int_abs)
  ultimately have "e \<le> 53" by (simp add: e_def)
  then have "u \<le> pow2 30"
    unfolding u_def by (intro pow2_mono) simp
  then have u30: "u \<le> 1073741824" by (simp add: pow2_def)
  have u0: "0 < u" by (simp add: u_def pow2_pos)
  have "\<bar>v\<bar> = \<bar>of_int (rne (?q / u)) :: rat\<bar> * u"
    using u0 by (simp add: v_def abs_mult)
  also have "\<dots> \<le> (\<bar>?q / u\<bar> + 1) * u"
    using u0 rne_near[of "?q / u"] by (intro mult_right_mono) simp_all
  also have "\<dots> = \<bar>?q\<bar> + u"
    using u0 by (simp add: algebra_simps abs_divide)
  also have "\<dots> \<le> 9007199254740992 + 1073741824"
  proof -
    have "\<bar>?q\<bar> \<le> 9007199254740992"
      using assms by (metis of_int_abs of_int_le_iff of_int_numeral)
    then show ?thesis using u30 by linarith
  qed
  also have "\<dots> < pow2 (127 + 1)"
    by (simp add: pow2_def)
  finally have "\<not> pow2 (127 + 1) \<le> \<bar>v\<bar>" by simp
  then show ?thesis
    using False unfolding round32_def round_to_def Let_def e_def[symmetric] u_def[symmetric]
      v_def[symmetric]
    by simp
qed

lemma ieee_fpu_sel:
  "f_of_d ieee_fpu = ieee_narrow" "d_zero ieee_fpu = Finite 0" "f_zero ieee_fpu = Finite 0"
  "d_epsilon ieee_fpu = Finite (1 / 16)" "d_add ieee_fpu = ieee_add round64"
  "d_gt ieee_fpu x y = (ieee_le y x \<and> \<not> ieee_le x y)"
  by (simp_all add: ieee_fpu_def)

lemma cell_of_range:
  assumes "n < M * W * H"
  shows "case cell_of W H n of (m, w, h) \<Rightarrow> m < M \<and> w < W \<and> h < H"
proof -
  have H: "0 < H" and W: "0 < W" using assms by (cases H; cases W; simp)+
  have "n div (W * H) < M"
    using assms W H by (simp add: less_mult_imp_div_less mult.assoc)
  moreover have "n div H mod W < W" using W by simp
  moreover have "n mod H < H" using H by simp
  ultimately show ?thesis by (simp add: cell_of_def)
qed

lemma outp_filled_cong:
  assumes "\<And>n. n < N \<Longrightarrow> f n = g n"
  shows "outp (filled f lg N st) = outp (filled g lg' N st)"
  using assms by (simp add: filled_def)

lemma outp_filled_full:
  assumes "length (cells3 (outp st)) = N"
  shows "cells3 (outp (filled f lg N st)) = map f [0..<N]"
  using assms by (simp add: filled_def)

lemma valid_call_shaped:
  assumes "valid_call st width height nchannels nkernels kernel_order"
  shows "shaped st (nat width) (nat height) (nat nchannels) (nat nkernels) (nat kernel_order)"
  using assms by (auto simp: valid_call_def shaped_def nat_add_distrib)

lemma round32_zero_sub: "ieee_add round32 (Finite a) (ieee_neg (Finite a)) = Finite 0"
  by simp

lemma sad_same:
  assumes "list_all ieee_finite (cells3 a)"
  shows "diffs_ok ieee_fpu a a" "sad ieee_fpu a a = Finite 0"
proof -
  have d: "abs_diff ieee_fpu x x = Finite 0" if "ieee_finite x" for x
    using that by (cases x) (simp_all add: abs_diff_def ieee_fpu_def)
  have "list_all (\<lambda>(c, r). d_ge ieee_fpu (abs_diff ieee_fpu c r) (d_zero ieee_fpu)) (zip xs xs)"
    if "list_all ieee_finite xs" for xs
    using that by (induction xs) (simp_all add: d, simp add: ieee_fpu_def)
  then show "diffs_ok ieee_fpu a a"
    using assms by (simp add: diffs_ok_def)
  have "fold (\<lambda>(c, r) s. d_add ieee_fpu s (abs_diff ieee_fpu c r)) (zip xs xs) (Finite 0) = Finite 0"
    if "list_all ieee_finite xs" for xs
    using that by (induction xs) (simp_all add: d, simp add: ieee_fpu_def)
  then show "sad ieee_fpu a a = Finite 0"
    using assms by (simp add: sad_def ieee_fpu_def)
qed


lemma sum_list_abs_bound:
  fixes d :: "'a \<Rightarrow> int"
  assumes "\<And>i. i \<in> set xs \<Longrightarrow> \<bar>d i\<bar> \<le> b"
  shows "\<bar>\<Sum>i\<leftarrow>xs. d i\<bar> \<le> int (length xs) * b"
  using assms
proof (induction xs)
  case Nil
  then show ?case by simp
next
  case (Cons i xs)
  have "\<bar>d i\<bar> \<le> b" "\<bar>\<Sum>i\<leftarrow>xs. d i\<bar> \<le> int (length xs) * b"
    using Cons by simp_all
  then show ?case by (simp add: algebra_simps)
qed

lemma isum_bound:
  assumes sm: "small_data A B st" and sh: "shaped st W H C M K"
    and r: "m < M" "w < W" "h < H"
  shows "\<bar>isum st C K m w h\<bar> \<le> int C * (int K * (int K * (A * B)))"
proof -
  have row: "\<bar>\<Sum>y\<leftarrow>[0..<K]. itap st m w h c x y\<bar> \<le> int K * (A * B)" if "c < C" "x < K" for c x
    using sum_list_abs_bound[of "[0..<K]" "\<lambda>y. itap st m w h c x y" "A * B"]
      small_shaped(3)[OF sm sh r that] by simp
  have win: "\<bar>\<Sum>x\<leftarrow>[0..<K]. \<Sum>y\<leftarrow>[0..<K]. itap st m w h c x y\<bar> \<le> int K * (int K * (A * B))"
    if "c < C" for c
    using sum_list_abs_bound[of "[0..<K]" "\<lambda>x. \<Sum>y\<leftarrow>[0..<K]. itap st m w h c x y" "int K * (A * B)"]
      row[OF that] by simp
  show ?thesis
    unfolding isum_def
    using sum_list_abs_bound[of "[0..<C]" "\<lambda>c. \<Sum>x\<leftarrow>[0..<K]. \<Sum>y\<leftarrow>[0..<K]. itap st m w h c x y"
        "int K * (int K * (A * B))"] win by simp
qed

lemma exact_cells:
  assumes sm: "small_data A B st" and sh: "shaped st W H C M K"
    and K: "K \<in> {3, 5, 7} \<or> K = 1 \<and> bld = Serial"
    and ab: "3 * (A * B) \<le> 16777216"
    and tot: "int C * (int K * (int K * (A * B))) \<le> 9007199254740992"
    and C: "0 < C"
    and n: "n < M * W * H"
  shows "stu_out ieee_fpu bld st W H C K n = ref_out ieee_fpu st W H C K n"
    and "ieee_finite (ref_out ieee_fpu st W H C K n)"
proof -
  obtain m w h where c: "cell_of W H n = (m, w, h)"
    by (cases "cell_of W H n") auto
  then have r: "m < M" "w < W" "h < H"
    using cell_of_range[OF n] by simp_all
  have K0: "0 < K" using K by auto
  have ab0: "0 \<le> A * B"
    using small_shaped(3)[OF sm sh r C K0 K0] by simp
  then have ab1: "A * B \<le> 16777216" using ab by simp
  have rv: "ref_val ieee_fpu st C K m w h = Finite (of_int (isum st C K m w h))"
    by (rule ref_val_exact[OF sm sh ab1 tot r])
  have sv: "stu_val ieee_fpu bld st C K m w h = Finite (of_int (isum st C K m w h))"
    by (rule stu_val_exact[OF sm sh K ab tot C r])
  show "stu_out ieee_fpu bld st W H C K n = ref_out ieee_fpu st W H C K n"
    by (simp add: stu_out_def ref_out_def c rv sv)
  have "\<bar>isum st C K m w h\<bar> \<le> 9007199254740992"
    using isum_bound[OF sm sh r] tot by linarith
  then have "ieee_finite (round32 (of_int (isum st C K m w h)))"
    by (rule round32_int_finite)
  then show "ieee_finite (ref_out ieee_fpu st W H C K n)"
    by (simp add: ref_out_def c rv ieee_fpu_sel)
qed

lemma round32_tie: "round32 16777217 = Finite 16777216"
  by code_simp

section \<open>Renumbering the channels\<close>

lemma permute_fields [simp]:
  "n0 (image (permute_channels p st)) = n0 (image st)"
  "n1 (image (permute_channels p st)) = n1 (image st)"
  "n2 (image (permute_channels p st)) = n2 (image st)"
  "k0 (kernels (permute_channels p st)) = k0 (kernels st)"
  "k1 (kernels (permute_channels p st)) = k1 (kernels st)"
  "k2 (kernels (permute_channels p st)) = k2 (kernels st)"
  "k3 (kernels (permute_channels p st)) = k3 (kernels st)"
  "outp (permute_channels p st) = outp st"
  "stores (permute_channels p st) = stores st"
  "length (cells3 (image (permute_channels p st))) = length (cells3 (image st))"
  "length (cells4 (kernels (permute_channels p st))) = length (cells4 (kernels st))"
  by (simp_all add: permute_channels_def)

lemma permute_valid:
  "valid_call (permute_channels p st) width height nchannels nkernels kernel_order
   = valid_call st width height nchannels nkernels kernel_order"
  by (simp add: valid_call_def wf3_def wf4_def)

lemma permute_shaped: "shaped (permute_channels p st) W H C M K = shaped st W H C M K"
  by (simp add: shaped_def wf3_def wf4_def)

lemma div_flat: "r < b \<Longrightarrow> (q * b + r) div b = (q::nat)"
  by simp

lemma mod_flat: "c < b \<Longrightarrow> (q * b + c) mod b = (c::nat)"
  by simp

lemma cells3_permute:
  "n < length (cells3 (image st)) \<Longrightarrow>
   cells3 (image (permute_channels p st)) ! n
   = cells3 (image st) ! (n - n mod n2 (image st) + p (n mod n2 (image st)))"
  by (simp add: permute_channels_def)

lemma cells4_permute:
  "n < length (cells4 (kernels st)) \<Longrightarrow>
   cells4 (kernels (permute_channels p st)) ! n
   = cells4 (kernels st)
       ! (n - (n div (k2 (kernels st) * k3 (kernels st)) mod k1 (kernels st))
                * (k2 (kernels st) * k3 (kernels st))
          + p (n div (k2 (kernels st) * k3 (kernels st)) mod k1 (kernels st))
              * (k2 (kernels st) * k3 (kernels st)))"
  by (simp add: permute_channels_def Let_def)

lemma img_permute:
  assumes "wf3 (image st)" "i < n0 (image st)" "j < n1 (image st)" "c < n2 (image st)"
  shows "img (permute_channels p st) i j c = img st i j (p c)"
proof -
  let ?C = "n2 (image st)"
  let ?n = "i * n1 (image st) * ?C + j * ?C + c"
  have n: "?n < length (cells3 (image st))"
    using flat_bound3[OF assms(2-4)] assms(1) by (simp add: wf3_def)
  have "?n = (i * n1 (image st) + j) * ?C + c" by (simp add: algebra_simps)
  then have "?n mod ?C = ((i * n1 (image st) + j) * ?C + c) mod ?C" by (simp only:)
  also have "\<dots> = c" using assms(4) by (rule mod_flat)
  finally have m: "?n mod ?C = c" .
  have "img (permute_channels p st) i j c = cells3 (image (permute_channels p st)) ! ?n"
    by (simp add: img_def)
  also have "\<dots> = cells3 (image st) ! (?n - ?n mod ?C + p (?n mod ?C))"
    by (rule cells3_permute[OF n])
  also have "?n - ?n mod ?C + p (?n mod ?C) = i * n1 (image st) * ?C + j * ?C + p c"
    unfolding m by simp
  finally show ?thesis
    by (simp only: img_def)
qed

lemma ker_permute:
  assumes "wf4 (kernels st)" "m < k0 (kernels st)" "c < k1 (kernels st)"
    "x < k2 (kernels st)" "y < k3 (kernels st)"
  shows "ker (permute_channels p st) m c x y = ker st m (p c) x y"
proof -
  let ?C = "k1 (kernels st)" and ?X = "k2 (kernels st)" and ?Y = "k3 (kernels st)"
  let ?n = "m * ?C * ?X * ?Y + c * ?X * ?Y + x * ?Y + y"
  have n: "?n < length (cells4 (kernels st))"
    using flat_bound4[OF assms(2-5)] assms(1) by (simp add: wf4_def)
  have xy: "x * ?Y + y < ?X * ?Y"
  proof -
    have "x * ?Y + y < x * ?Y + ?Y" using assms(5) by simp
    also have "\<dots> = Suc x * ?Y" by simp
    also have "\<dots> \<le> ?X * ?Y" using assms(4) by (intro mult_le_mono1) simp
    finally show ?thesis .
  qed
  have e: "?n = (m * ?C + c) * (?X * ?Y) + (x * ?Y + y)" by (simp add: algebra_simps)
  have "?n div (?X * ?Y) = ((m * ?C + c) * (?X * ?Y) + (x * ?Y + y)) div (?X * ?Y)"
    using e by (simp only:)
  also have "\<dots> = m * ?C + c"
    using xy by (rule div_flat)
  finally have d: "?n div (?X * ?Y) = m * ?C + c" .
  have c: "?n div (?X * ?Y) mod ?C = c"
    unfolding d using assms(3) by (rule mod_flat)
  have "ker (permute_channels p st) m c x y = cells4 (kernels (permute_channels p st)) ! ?n"
    by (simp add: ker_def)
  also have "\<dots> = cells4 (kernels st)
       ! (?n - (?n div (?X * ?Y) mod ?C) * (?X * ?Y) + p (?n div (?X * ?Y) mod ?C) * (?X * ?Y))"
    by (rule cells4_permute[OF n])
  also have "?n - (?n div (?X * ?Y) mod ?C) * (?X * ?Y) + p (?n div (?X * ?Y) mod ?C) * (?X * ?Y)
             = m * ?C * ?X * ?Y + p c * ?X * ?Y + x * ?Y + y"
    unfolding c by (simp add: algebra_simps)
  finally show ?thesis
    by (simp only: ker_def)
qed


lemma permuted_index3:
  fixes n N C :: nat
  assumes n: "n < N * C" and p: "p (n mod C) < C"
  shows "n - n mod C + p (n mod C) < N * C"
proof -
  have C: "0 < C" using n by (cases C) simp_all
  have q: "n div C < N" using n C by (simp add: less_mult_imp_div_less)
  have "n - n mod C = n div C * C" by (simp add: minus_mod_eq_div_mult)
  then have "n - n mod C + p (n mod C) < n div C * C + C" using p by simp
  also have "\<dots> = Suc (n div C) * C" by simp
  also have "\<dots> \<le> N * C" using q by (intro mult_le_mono1) simp
  finally show ?thesis .
qed

lemma permuted_index4:
  fixes n M C kk :: nat
  assumes n: "n < M * C * kk" and p: "p (n div kk mod C) < C"
  shows "n - (n div kk mod C) * kk + p (n div kk mod C) * kk < M * C * kk"
proof -
  have kk: "0 < kk" using n by (cases kk) simp_all
  have C: "0 < C" using n by (cases C) simp_all
  define q where "q = n div kk"
  define c where "c = q mod C"
  define mq where "mq = q div C"
  define r where "r = n mod kk"
  have nq: "n = q * kk + r" by (simp add: q_def r_def)
  have qc: "q = mq * C + c" by (simp add: mq_def c_def)
  have r: "r < kk" using kk by (simp add: r_def)
  have "q < M * C" using n kk unfolding q_def by (simp add: less_mult_imp_div_less)
  then have mq: "mq < M" using C unfolding mq_def by (simp add: less_mult_imp_div_less)
  have "n - c * kk + p c * kk = (mq * C + p c) * kk + r"
    unfolding nq qc by (simp add: algebra_simps)
  also have "\<dots> < (mq * C + p c) * kk + kk" using r by simp
  also have "\<dots> = Suc (mq * C + p c) * kk" by simp
  also have "\<dots> \<le> (Suc mq * C) * kk"
    using p unfolding c_def[symmetric] q_def[symmetric] by (intro mult_le_mono1) simp
  also have "\<dots> \<le> (M * C) * kk"
    using mq by (intro mult_le_mono1) simp
  finally show ?thesis
    unfolding c_def q_def by simp
qed

lemma small_data_permute:
  assumes sm: "small_data A B st" and wf: "wf3 (image st)" "wf4 (kernels st)"
    and C: "n2 (image st) = C" "k1 (kernels st) = C"
    and p: "\<And>c. c < C \<Longrightarrow> p c < C"
  shows "small_data A B (permute_channels p st)"
proof -
  have i: "int_valued A (cells3 (image st) ! (n - n mod C + p (n mod C)))"
    if "n < length (cells3 (image st))" for n
  proof -
    have n: "n < n0 (image st) * n1 (image st) * C"
      using that wf(1) C(1) by (simp add: wf3_def)
    then have "0 < C" by (cases C) simp_all
    then have "p (n mod C) < C" by (intro p) simp
    then have "n - n mod C + p (n mod C) < n0 (image st) * n1 (image st) * C"
      using n by (intro permuted_index3)
    then have "cells3 (image st) ! (n - n mod C + p (n mod C)) \<in> set (cells3 (image st))"
      using wf(1) C(1) by (intro nth_mem) (simp add: wf3_def)
    then show ?thesis
      using sm by (simp add: small_data_def list_all_iff)
  qed
  have k: "\<bar>sint (cells4 (kernels st) ! (n - (n div kk mod C) * kk + p (n div kk mod C) * kk))\<bar> \<le> B"
    if "n < length (cells4 (kernels st))" "kk = k2 (kernels st) * k3 (kernels st)" for n kk
  proof -
    have n: "n < k0 (kernels st) * C * kk"
      using that wf(2) C(2) by (simp add: wf4_def mult.assoc)
    then have "0 < C" by (cases C) simp_all
    then have "p (n div kk mod C) < C" by (intro p) simp
    then have "n - (n div kk mod C) * kk + p (n div kk mod C) * kk < k0 (kernels st) * C * kk"
      using n by (intro permuted_index4)
    then have "cells4 (kernels st) ! (n - (n div kk mod C) * kk + p (n div kk mod C) * kk)
               \<in> set (cells4 (kernels st))"
      using wf(2) C(2) that(2) by (intro nth_mem) (simp add: wf4_def mult.assoc)
    then show ?thesis
      using sm by (simp add: small_data_def list_all_iff)
  qed
  show ?thesis
    unfolding small_data_def permute_channels_def
    using i k C by (simp add: list_all_iff Let_def)
qed


lemma swap_idx_bij:
  assumes "a < C" "b < C"
  shows "bij_betw (swap_idx a b) {..<C} {..<C}"
  by (rule bij_betw_byWitness[where f' = "swap_idx a b"])
     (use assms in \<open>auto simp: swap_idx_def\<close>)

lemma sum_list_upt_permute:
  fixes g :: "nat \<Rightarrow> int"
  assumes "bij_betw p {..<C} {..<C}"
  shows "(\<Sum>c\<leftarrow>[0..<C]. g (p c)) = (\<Sum>c\<leftarrow>[0..<C]. g c)"
proof -
  have "(\<Sum>c\<leftarrow>[0..<C]. g (p c)) = (\<Sum>c\<in>{..<C}. g (p c))"
    by (simp add: interv_sum_list_conv_sum_set_nat atLeast0LessThan)
  also have "\<dots> = (\<Sum>c\<in>{..<C}. g c)"
    by (rule sum.reindex_bij_betw[OF assms])
  also have "\<dots> = (\<Sum>c\<leftarrow>[0..<C]. g c)"
    by (simp add: interv_sum_list_conv_sum_set_nat atLeast0LessThan)
  finally show ?thesis .
qed

lemma sum_list_cong_upt:
  fixes f g :: "nat \<Rightarrow> int"
  assumes "\<And>i. i < n \<Longrightarrow> f i = g i"
  shows "(\<Sum>i\<leftarrow>[0..<n]. f i) = (\<Sum>i\<leftarrow>[0..<n]. g i)"
  using assms by (intro arg_cong[where f = sum_list] map_cong) simp_all

lemma itap_permute:
  assumes sh: "shaped st W H C M K"
    and r: "w < W" "h < H" "m < M" "c < C" "x < K" "y < K"
  shows "itap (permute_channels p st) m w h c x y = itap st m w h (p c) x y"
proof -
  note d = shapedD[OF sh]
  have "img (permute_channels p st) (w + x) (h + y) c = img st (w + x) (h + y) (p c)"
    using d r by (intro img_permute) simp_all
  moreover have "ker (permute_channels p st) m c x y = ker st m (p c) x y"
    using d r by (intro ker_permute) simp_all
  ultimately show ?thesis
    by (simp add: itap_def)
qed

lemma isum_permute:
  assumes sh: "shaped st W H C M K" and r: "m < M" "w < W" "h < H"
    and p: "bij_betw p {..<C} {..<C}"
  shows "isum (permute_channels p st) C K m w h = isum st C K m w h"
proof -
  have "isum (permute_channels p st) C K m w h
        = (\<Sum>c\<leftarrow>[0..<C]. \<Sum>x\<leftarrow>[0..<K]. \<Sum>y\<leftarrow>[0..<K]. itap st m w h (p c) x y)"
    unfolding isum_def
    using itap_permute[OF sh r(2,3,1)]
    by (intro sum_list_cong_upt) simp
  also have "\<dots> = isum st C K m w h"
    unfolding isum_def
    by (rule sum_list_upt_permute[OF p, of "\<lambda>c. \<Sum>x\<leftarrow>[0..<K]. \<Sum>y\<leftarrow>[0..<K]. itap st m w h c x y"])
  finally show ?thesis .
qed

lemma ref_val_window:
  assumes "same_window st st' C K m w h"
  shows "ref_val fp st C K m w h = ref_val fp st' C K m w h"
proof -
  have teq: "tap fp st m w h c x y = tap fp st' m w h c x y" if "c < C" "x < K" "y < K" for c x y
    using assms that by (simp add: same_window_def tap_def)
  have row: "fold (\<lambda>y s. d_add fp s (tap fp st m w h c x y)) [0..<K]
                  = fold (\<lambda>y s. d_add fp s (tap fp st' m w h c x y)) [0..<K]"
    if "c < C" "x < K" for c x
    using that by (intro ext fold_cong refl) (simp add: teq)
  have win: "fold (\<lambda>x. fold (\<lambda>y s. d_add fp s (tap fp st m w h c x y)) [0..<K]) [0..<K]
             = fold (\<lambda>x. fold (\<lambda>y s. d_add fp s (tap fp st' m w h c x y)) [0..<K]) [0..<K]"
    if "c < C" for c
    using that by (intro ext fold_cong refl) (simp_all add: teq)
  show ?thesis
    unfolding ref_val_def
    by (intro fold_cong refl) (simp_all add: win)
qed

lemma filled_cell:
  fixes m w h M W H :: nat
  assumes "length (cells3 (outp st)) = M * W * H" "n0 (outp st) = M" "n1 (outp st) = W"
    "n2 (outp st) = H" "m < M" "w < W" "h < H"
  shows "at3 (outp (filled f lg (M * W * H) st)) (int m) (int w) (int h)
         = Inr (f (m * W * H + w * H + h))"
proof -
  have n: "m * W * H + w * H + h < M * W * H"
    using assms(5-7) by (rule flat_bound3)
  have "at3 (outp (filled f lg (M * W * H) st)) (int m) (int w) (int h)
        = Inr (cells3 (outp (filled f lg (M * W * H) st)) ! (m * W * H + w * H + h))"
    using at3_inside[of "outp (filled f lg (M * W * H) st)" m w h] assms
    by (simp add: wf3_def)
  also have "cells3 (outp (filled f lg (M * W * H) st)) = map f [0..<M * W * H]"
    by (rule outp_filled_full[OF assms(1)])
  finally show ?thesis
    using n by simp
qed

lemma ref_out_cell:
  assumes "w < W" "h < H"
  shows "ref_out fp st W H C K (m * W * H + w * H + h) = f_of_d fp (ref_val fp st C K m w h)"
  using cell_of_flat[OF assms, of m] by (simp add: ref_out_def mult.assoc)


lemma window_dependence:
  assumes v: "valid_call st width height nchannels nkernels kernel_order"
    and v': "valid_call st' width height nchannels nkernels kernel_order"
    and r: "m < nat nkernels" "w < nat width" "h < nat height"
    and sw: "same_window st st' (nat nchannels) (nat kernel_order) m w h"
  shows "\<exists>r r'. multichannel_conv fp st width height nchannels nkernels kernel_order = Inr r
           \<and> multichannel_conv fp st' width height nchannels nkernels kernel_order = Inr r'
           \<and> at3 (outp r) (int m) (int w) (int h)
               = Inr (f_of_d fp (ref_val fp st (nat nchannels) (nat kernel_order) m w h))
           \<and> at3 (outp r') (int m) (int w) (int h) = at3 (outp r) (int m) (int w) (int h)"
proof -
  define W H C M K where "W = nat width" and "H = nat height" and "C = nat nchannels"
    and "M = nat nkernels" and "K = nat kernel_order"
  have o: "length (cells3 (outp s)) = M * W * H" "n0 (outp s) = M" "n1 (outp s) = W" "n2 (outp s) = H"
    if "valid_call s width height nchannels nkernels kernel_order" for s :: "'a conv_state"
    using that by (simp_all add: valid_call_def wf3_def M_def W_def H_def)
  have c: "at3 (outp (filled (ref_out fp s W H C K) lg (M * W * H) s)) (int m) (int w) (int h)
           = Inr (f_of_d fp (ref_val fp s C K m w h))"
    if "valid_call s width height nchannels nkernels kernel_order" for s :: "'a conv_state" and lg
    using filled_cell[OF o[OF that], of m w h "ref_out fp s W H C K" lg] r
      ref_out_cell[of w W h H fp s C K m]
    by (simp add: M_def W_def H_def)
  show ?thesis
    using multichannel_conv_result[OF v, of fp] multichannel_conv_result[OF v', of fp]
      c[OF v] c[OF v'] ref_val_window[OF sw, of fp]
    by (simp add: M_def W_def H_def C_def K_def)
qed

lemma channel_permutation_exact:
  assumes v: "valid_call st width height nchannels nkernels kernel_order"
    and sm: "small_data A B st"
    and ab: "A * B \<le> 16777216"
    and tot: "nchannels * (kernel_order * (kernel_order * (A * B))) \<le> 9007199254740992"
    and p: "bij_betw p {..<nat nchannels} {..<nat nchannels}"
  shows "\<exists>r r'. multichannel_conv ieee_fpu st width height nchannels nkernels kernel_order = Inr r
           \<and> multichannel_conv ieee_fpu (permute_channels p st)
                 width height nchannels nkernels kernel_order = Inr r'
           \<and> outp r' = outp r"
proof -
  define W H C M K where "W = nat width" and "H = nat height" and "C = nat nchannels"
    and "M = nat nkernels" and "K = nat kernel_order"
  have sh: "shaped st W H C M K"
    unfolding W_def H_def C_def M_def K_def by (rule valid_call_shaped[OF v])
  then have sh': "shaped (permute_channels p st) W H C M K"
    by (simp add: permute_shaped)
  have v': "valid_call (permute_channels p st) width height nchannels nkernels kernel_order"
    using v by (simp add: permute_valid)
  have pc: "p c < C" if "c < C" for c
    using p that unfolding C_def[symmetric] by (auto simp: bij_betw_def)
  have sm': "small_data A B (permute_channels p st)"
    using shapedD[OF sh] pc by (intro small_data_permute[OF sm, of C]) simp_all
  have tot': "int C * (int K * (int K * (A * B))) \<le> 9007199254740992"
    using tot v by (simp add: C_def K_def valid_call_def)
  have eq: "ref_out ieee_fpu (permute_channels p st) W H C K n = ref_out ieee_fpu st W H C K n"
    if "n < M * W * H" for n
  proof -
    obtain m w h where c: "cell_of W H n = (m, w, h)"
      by (cases "cell_of W H n") auto
    then have r: "m < M" "w < W" "h < H"
      using cell_of_range[OF that] by simp_all
    have "ref_val ieee_fpu (permute_channels p st) C K m w h
          = Finite (of_int (isum (permute_channels p st) C K m w h))"
      by (rule ref_val_exact[OF sm' sh' ab tot' r])
    moreover have "ref_val ieee_fpu st C K m w h = Finite (of_int (isum st C K m w h))"
      by (rule ref_val_exact[OF sm sh ab tot' r])
    moreover have "isum (permute_channels p st) C K m w h = isum st C K m w h"
      using p unfolding C_def[symmetric] by (intro isum_permute[OF sh r])
    ultimately show ?thesis
      by (simp add: ref_out_def c)
  qed
  have "outp (filled (ref_out ieee_fpu (permute_channels p st) W H C K) lg (M * W * H)
                (permute_channels p st))
        = outp (filled (ref_out ieee_fpu st W H C K) lg (M * W * H) st)" for lg
    using eq by (simp add: outp_filled)
  then show ?thesis
    using multichannel_conv_result[OF v, of ieee_fpu] multichannel_conv_result[OF v', of ieee_fpu]
    by (simp add: M_def W_def H_def C_def K_def)
qed

lemma absorb_valid: "valid_call absorb_input 1 1 3 1 1"
  by (simp add: valid_call_def absorb_input_def wf3_def wf4_def)

lemma round32_two53:
  "round32 9007199254740992 = Finite 9007199254740992"
  "round32 (- 9007199254740992) = Finite (- 9007199254740992)"
  by code_simp+

lemma round64_absorbs: "round64 9007199254740993 = Finite 9007199254740992"
  by code_simp

section \<open>The shape of the stored terms\<close>

lemma term_fpu_sel:
  "f_of_i16 term_fpu = F_of_i16" "d_of_i16 term_fpu = D_of_i16" "d_of_f term_fpu = D_of_f"
  "f_of_d term_fpu = F_of_d" "f_zero term_fpu = F_zero" "f_one term_fpu = F_one"
  "d_zero term_fpu = D_zero" "f_mul term_fpu = F_mul" "f_add term_fpu = F_add"
  "d_mul term_fpu = D_mul" "d_add term_fpu = D_add"
  by (simp_all add: term_fpu_def)

lemma policy_simps [simp]:
  "atom (Elem a)"
  "float_product (F_mul (Elem a) (F_of_i16 k))"
  "widened_float_product (D_of_f (F_mul (Elem a) (F_of_i16 k)))"
  "double_product (D_mul (D_of_f (Elem a)) (D_of_i16 k))"
  "float_row_sum (D_of_f (F_add (F_add (F_mul (F_mul (Elem a0) (F_of_i16 j0)) F_one)
                                        (F_mul (F_mul (Elem a1) (F_of_i16 j1)) F_one))
                                 (F_add (F_mul (F_mul (Elem a2) (F_of_i16 j2)) F_one) F_zero)))"
  "precision_policy (F_of_d s) = double_sum_of promoted_product s"
  "float_products_policy (F_of_d s) = double_sum_of widened_float_product s"
  "double_products_policy (F_of_d s) = double_sum_of double_product s"
  "float_rows_policy (F_of_d s) = double_sum_of float_row_sum s"
  by (simp_all add: atom_def weight_f_def weight_d_def float_product_def
      widened_float_product_def double_product_def scaled_product_def float_row_sum_def
      precision_policy_def float_products_policy_def double_products_policy_def
      float_rows_policy_def)

lemma atom_img:
  assumes sh: "shaped st W H C M K" and at: "list_all atom (cells3 (image st))"
    and r: "w < W" "h < H" "c < C" "x < K" "y < K"
  shows "\<exists>a. img st (w + x) (h + y) c = Elem a"
proof -
  have "(w + x) * (H + K) * C + (h + y) * C + c < (W + K) * (H + K) * C"
    using r by (intro flat_bound3) simp_all
  then have "(w + x) * (H + K) * C + (h + y) * C + c < length (cells3 (image st))"
    using shapedD[OF sh] by (simp add: wf3_def)
  then have "atom (img st (w + x) (h + y) c)"
    using at shapedD[OF sh] by (simp add: img_def list_all_length)
  then show ?thesis
    by (cases "img st (w + x) (h + y) c") (simp_all add: atom_def)
qed

lemma double_sum_of_fold:
  assumes "double_sum_of P s" "\<And>x. x \<in> set xs \<Longrightarrow> double_sum_of P (g x)"
  shows "double_sum_of P (fold (\<lambda>x s. D_add s (g x)) xs s)"
  using assms by (induction xs arbitrary: s) simp_all

lemma double_sum_of_nest:
  assumes "double_sum_of P s"
    "\<And>x s. x \<in> set xs \<Longrightarrow> double_sum_of P s \<Longrightarrow> double_sum_of P (f x s)"
  shows "double_sum_of P (fold f xs s)"
  using assms by (induction xs arbitrary: s) simp_all

lemma double_sum_of_mono:
  assumes "\<And>e. P e \<Longrightarrow> Q e" "double_sum_of P e"
  shows "double_sum_of Q e"
  using assms(2) by (induction e) (simp_all add: assms(1))

lemma tap_promoted:
  assumes "shaped st W H C M K" "list_all atom (cells3 (image st))"
    "w < W" "h < H" "c < C" "x < K" "y < K"
  shows "double_sum_of widened_float_product (tap term_fpu st m w h c x y)"
  using atom_img[OF assms] by (auto simp: tap_def term_fpu_sel)

lemma ref_val_policy:
  assumes "shaped st W H C M K" "list_all atom (cells3 (image st))" "w < W" "h < H"
  shows "double_sum_of widened_float_product (ref_val term_fpu st C K m w h)"
  unfolding ref_val_def term_fpu_sel
  by (intro double_sum_of_nest double_sum_of_fold tap_promoted[OF assms(1,2,3,4)])
     simp_all

lemma row5_policy:
  assumes "shaped st W H C M 5" "list_all atom (cells3 (image st))"
    "w < W" "h < H" "c < C" "x < 5"
  shows "double_sum_of double_product (row5_val term_fpu st m w h c x)"
  using atom_img[OF assms, of 0] atom_img[OF assms, of 1] atom_img[OF assms, of 2]
    atom_img[OF assms, of 3] atom_img[OF assms, of 4]
  by (auto simp: row5_val_def term_fpu_sel Let_def)

lemma row3_policy:
  assumes "shaped st W H C M 3" "list_all atom (cells3 (image st))"
    "w < W" "h < H" "c < C" "x < 3"
  shows "double_sum_of float_row_sum (row3_val term_fpu st m w h c x)"
  using atom_img[OF assms, of 0] atom_img[OF assms, of 1] atom_img[OF assms, of 2]
  by (auto simp: row3_val_def term_fpu_sel)

lemma stu_val_policy:
  assumes sh: "shaped st W H C M K" and at: "list_all atom (cells3 (image st))"
    and r: "w < W" "h < H" and K: "K \<in> {1, 7}"
  shows "double_sum_of widened_float_product (stu_val term_fpu bld st C K m w h)"
proof -
  consider "K = 1" | "K = 7" using K by auto
  then show ?thesis
  proof cases
    case 1
    then show ?thesis
      using ref_val_policy[OF sh at r, of m]
      by (cases bld) (simp_all add: stu_val_def term_fpu_sel)
  next
    case 2
    then show ?thesis
      using ref_val_policy[OF sh at r, of m] by (simp add: stu_val_def)
  qed
qed

lemma stu_val_policy5:
  assumes sh: "shaped st W H C M 5" and at: "list_all atom (cells3 (image st))"
    and r: "w < W" "h < H"
  shows "double_sum_of double_product (stu_val term_fpu bld st C 5 m w h)"
proof -
  have "double_sum_of double_product
          (fold (\<lambda>c. fold (\<lambda>x s. D_add s (row5_val term_fpu st m w h c x)) [0..<5]) [0..<C]
             D_zero)"
    by (intro double_sum_of_nest double_sum_of_fold row5_policy[OF sh at r]) simp_all
  then show ?thesis
    by (simp add: stu_val_def term_fpu_sel)
qed

lemma stu_val_policy3:
  assumes sh: "shaped st W H C M 3" and at: "list_all atom (cells3 (image st))"
    and r: "w < W" "h < H"
  shows "double_sum_of float_row_sum (stu_val term_fpu bld st C 3 m w h)"
proof -
  have "double_sum_of float_row_sum
          (fold (\<lambda>c. fold (\<lambda>x s. D_add s (row3_val term_fpu st m w h c x)) [0..<3]) [0..<C]
             D_zero)"
    by (intro double_sum_of_nest double_sum_of_fold row3_policy[OF sh at r]) simp_all
  then show ?thesis
    by (simp add: stu_val_def term_fpu_sel)
qed

lemma stu_out_policy:
  assumes sh: "shaped st W H C M K" and at: "list_all atom (cells3 (image st))"
    and K: "K \<in> {1, 3, 5, 7}" and n: "n < M * W * H"
  shows "order_policy (int K) (stu_out term_fpu bld st W H C K n)"
    and "K \<noteq> 3 \<Longrightarrow> precision_policy (stu_out term_fpu bld st W H C K n)"
proof -
  obtain m w h where c: "cell_of W H n = (m, w, h)"
    by (cases "cell_of W H n") auto
  then have r: "w < W" "h < H"
    using cell_of_range[OF n] by simp_all
  have o: "stu_out term_fpu bld st W H C K n = F_of_d (stu_val term_fpu bld st C K m w h)"
    by (simp add: stu_out_def c term_fpu_sel)
  consider "K = 3" | "K = 5" | "K \<in> {1, 7}" using K by auto
  then show "order_policy (int K) (stu_out term_fpu bld st W H C K n)"
  proof cases
    case 1
    show ?thesis
      unfolding o using stu_val_policy3[OF sh[unfolded 1] at r, of bld m]
      by (simp add: 1 order_policy_def)
  next
    case 2
    show ?thesis
      unfolding o using stu_val_policy5[OF sh[unfolded 2] at r, of bld m]
      by (simp add: 2 order_policy_def)
  next
    case 3
    show ?thesis
      unfolding o using stu_val_policy[OF sh at r 3, of bld m] 3
      by (auto simp: order_policy_def)
  qed
  assume "K \<noteq> 3"
  then consider "K = 5" | "K \<in> {1, 7}" using K by auto
  then show "precision_policy (stu_out term_fpu bld st W H C K n)"
  proof cases
    case 1
    have "double_sum_of promoted_product (stu_val term_fpu bld st C 5 m w h)"
      by (rule double_sum_of_mono[OF _ stu_val_policy5[OF sh[unfolded 1] at r]])
         (simp add: promoted_product_def)
    then show ?thesis
      unfolding o by (simp add: 1)
  next
    case 2
    have "double_sum_of promoted_product (stu_val term_fpu bld st C K m w h)"
      by (rule double_sum_of_mono[OF _ stu_val_policy[OF sh at r 2]])
         (simp add: promoted_product_def)
    then show ?thesis
      unfolding o by simp
  qed
qed

lemma valid_elem_input: "K \<in> {1, 3, 5, 7} \<Longrightarrow> valid_call (elem_input K) 1 1 1 1 (int K)"
  by (auto simp: valid_call_def elem_input_def wf3_def wf4_def)

lemma atom_elem_input: "list_all atom (cells3 (image (elem_input K)))"
  by (simp add: elem_input_def list_all_iff)

section \<open>Inputs with two kernels\<close>

lemma valid_two_kernel_input:
  "K \<in> {1, 3, 5, 7} \<Longrightarrow> valid_call (two_kernel_input K) 1 1 1 2 (int K)"
  by (auto simp: valid_call_def two_kernel_input_def wf3_def wf4_def)

lemma filled_two_cells:
  assumes "cells3 (outp st) = [x, y]" "stores st = []"
  shows "filled f lg 2 st = st\<lparr>outp := (outp st)\<lparr>cells3 := [f 0, f 1]\<rparr>, stores := lg 2\<rparr>"
  using assms by (simp add: filled_def upt_2)

section \<open>Kernel order 7: the optimized routine repeats the reference\<close>

text \<open>
  For every valid input with \<open>kernel_order = 7\<close>, in a run without data race (the
  build without OpenMP, a team of one thread, or a single kernel), both routines return and
  leave the same output tensor. The equation holds for every arithmetic \<open>fp\<close>: the
  seven unrolled multiply-accumulates of a row are the seven iterations of the reference's
  loop over \<open>y\<close>, on the same operands and in the same order, inside the same loops
  over the channels and over \<open>x\<close>. So the two outputs are the same whatever the
  rounding of each operation is, bit for bit.
\<close>

theorem order7_same_output:
  assumes "valid_call st width height nchannels nkernels 7"
    and nr: "\<not> data_race bld nkernels"
  shows "\<exists>st_ref st_stu.
           multichannel_conv fp st width height nchannels nkernels 7 = Inr st_ref
           \<and> student_conv fp bld st width height nchannels nkernels 7 = Inr st_stu
           \<and> outp st_stu = outp st_ref"
proof -
  from assms(1) obtain W H C M K :: nat where dims:
    "width = int W" "height = int H" "nchannels = int C" "nkernels = int M"
    and k: "7 = int K" and pos: "0 < W" "0 < H" "0 < C" "0 < M"
    and im: "wf3 (image st)" "n0 (image st) = W + K" "n1 (image st) = H + K" "n2 (image st) = C"
    and ke: "wf4 (kernels st)" "k0 (kernels st) = M" "k1 (kernels st) = C"
    "k2 (kernels st) = K" "k3 (kernels st) = K"
    and ou: "wf3 (outp st)" "n0 (outp st) = M" "n1 (outp st) = W" "n2 (outp st) = H"
    by (rule valid_call_nat)
  have K: "K = 7" using k by simp
  note im' = im[unfolded K] and ke' = ke[unfolded K]
  have len: "length (cells3 (outp st)) = M * W * H"
    using ou by (simp add: wf3_def)
  have ref: "ref_sum fp st (int C) 7 m w h = Inr (ref_val fp st C 7 m w h)"
    if "m < M" "w < W" "h < H" for m w h
    using ref_sum_pure[of st W 7 H C M m w h fp] im' ke' that by simp
  have stu: "stu_sum fp bld st (int C) 7 m w h = Inr (ref_val fp st C 7 m w h)"
    if "m < M" "w < W" "h < H" for m w h
    using stu_sum_7[of st M C m fp bld w h] ref[OF that] ke' that by simp
  have "multichannel_conv fp st (int W) (int H) (int C) (int M) 7
        = Inr (filled (\<lambda>n. f_of_d fp (case cell_of W H n of (m, w, h) \<Rightarrow> ref_val fp st C 7 m w h))
                 (\<lambda>n. concat (map (replicate C) [0..<n])) (M * W * H) st)"
    using len ou pos ref by (intro multichannel_conv_filled) simp_all
  moreover have "student_conv fp bld st (int W) (int H) (int C) (int M) 7
        = Inr (filled (\<lambda>n. f_of_d fp (case cell_of W H n of (m, w, h) \<Rightarrow> ref_val fp st C 7 m w h))
                 (\<lambda>n. [0..<n]) (M * W * H) st)"
    using len stu pointers_ok_valid[OF assms(1)] nr[unfolded dims]
    by (intro student_conv_filled) simp_all
  ultimately show ?thesis
    unfolding dims by (simp add: outp_filled)
qed


theorem order7_same_output_witness:
  "valid_call (two_kernel_input 7) 1 1 1 2 7
   \<and> \<not> data_race (OpenMP 1 NaN) 2
   \<and> (\<exists>st_ref st_stu.
          multichannel_conv ieee_fpu (two_kernel_input 7) 1 1 1 2 7 = Inr st_ref
          \<and> student_conv ieee_fpu (OpenMP 1 NaN) (two_kernel_input 7) 1 1 1 2 7 = Inr st_stu
          \<and> outp st_stu = outp st_ref)"
proof -
  have v: "valid_call (two_kernel_input 7) 1 1 1 2 7"
    using valid_two_kernel_input[of 7] by simp
  have n: "\<not> data_race (OpenMP 1 NaN) 2"
    by simp
  show ?thesis
    using v n order7_same_output[OF v n, where fp = ieee_fpu] by simp
qed

text \<open>
  Claim C9. For \<open>kernel_order = 7\<close> the output of \<^verbatim>\<open>student_conv\<close> is to be
  the output of \<^verbatim>\<open>multichannel_conv\<close>, bit for bit. In the OpenMP build it is
  not, once there are two kernels and two threads: the two iterations of the loop over
  \<^verbatim>\<open>m\<close> run on two threads that share \<^verbatim>\<open>w\<close>,
  \<^verbatim>\<open>h\<close>, \<^verbatim>\<open>c\<close>, \<^verbatim>\<open>x\<close> and the index variables.
  On the input of all ones with two kernels and one cell for each the reference returns
  with 49.0 in both cells, and the optimized routine has a data race, whatever value its
  private \<^verbatim>\<open>sum\<close> starts from.
\<close>

theorem order7_openmp_race:
  "valid_call (two_kernel_input 7) 1 1 1 2 7
   \<and> multichannel_conv ieee_fpu (two_kernel_input 7) 1 1 1 2 7
       = Inr ((two_kernel_input 7)\<lparr>outp := (outp (two_kernel_input 7))\<lparr>cells3 :=
                  [Finite 49, Finite 49]\<rparr>, stores := [0, 1]\<rparr>)
   \<and> student_conv ieee_fpu (OpenMP 2 j) (two_kernel_input 7) 1 1 1 2 7 = Inl Data_race"
proof -
  have v: "valid_call (two_kernel_input 7) 1 1 1 2 7"
    using valid_two_kernel_input[of 7] by simp
  have c: "cells3 (outp (two_kernel_input 7)) = [NaN, NaN]" "stores (two_kernel_input 7) = []"
    by (simp_all add: two_kernel_input_def)
  have r: "ref_out ieee_fpu (two_kernel_input 7) (Suc 0) (Suc 0) (Suc 0) 7 0 = Finite 49"
    "ref_out ieee_fpu (two_kernel_input 7) (Suc 0) (Suc 0) (Suc 0) 7 (Suc 0) = Finite 49"
    by (simp_all add: ref_out_def cell_of_def ref_val_def tap_def img_def ker_def
        two_kernel_input_def ieee_fpu_def upt_7)
  have l: "concat (map (replicate (Suc 0)) [0..<2]) = [0, 1]"
    by (simp add: upt_2)
  have "multichannel_conv ieee_fpu (two_kernel_input 7) 1 1 1 2 7
       = Inr ((two_kernel_input 7)\<lparr>outp := (outp (two_kernel_input 7))\<lparr>cells3 :=
                  [Finite 49, Finite 49]\<rparr>, stores := [0, 1]\<rparr>)"
    using multichannel_conv_result[OF v, of ieee_fpu]
    by (simp add: filled_two_cells[OF c] r l)
  moreover have "student_conv ieee_fpu (OpenMP 2 j) (two_kernel_input 7) 1 1 1 2 7
                 = Inl Data_race"
    by (rule student_conv_races[OF pointers_ok_valid[OF v]]) simp
  ultimately show ?thesis
    using v by simp
qed

section \<open>A kernel order outside 1, 3, 5, 7\<close>

text \<open>
  Called with a kernel order other than 1, 3, 5 and 7, with positive width, height and
  number of kernels, non-empty pointer tables and an output tensor of
  \<open>nkernels * width * height\<close> cells, in a run without data race (the build without
  OpenMP, a team of one thread, or a single kernel), \<^verbatim>\<open>student_conv\<close>
  returns, and every cell of the output holds \<^verbatim>\<open>(float)0.0\<close>, stored once,
  in the order of the cells. Nothing is assumed of the elements of the image and of the
  kernels, not even that there are any: no branch of the channel loop is taken, so none
  is read. The number of channels is any integer.
\<close>

theorem student_conv_unsupported_order:
  assumes "kernel_order \<notin> {1, 3, 5, 7}"
    and "0 < width" "0 < height" "0 < nkernels"
    and "pointers_ok st"
    and "length (cells3 (outp st)) = nat nkernels * nat width * nat height"
    and nr: "\<not> data_race bld nkernels"
  shows "student_conv fp bld st width height nchannels nkernels kernel_order
         = Inr (st\<lparr>outp := (outp st)\<lparr>cells3 :=
                       replicate (nat nkernels * nat width * nat height) (f_of_d fp (d_zero fp))\<rparr>,
                   stores := stores st @ [0..<nat nkernels * nat width * nat height]\<rparr>)"
proof -
  define W H M where "W = nat width" and "H = nat height" and "M = nat nkernels"
  have dims: "width = int W" "height = int H" "nkernels = int M"
    using assms(2-4) by (simp_all add: W_def H_def M_def)
  have len: "length (cells3 (outp st)) = M * W * H"
    using assms(6) by (simp add: W_def H_def M_def)
  have "stu_sum fp bld st nchannels kernel_order m w h = Inr (d_zero fp)" for m w h
    using assms(1) by (intro stu_sum_unsupported) simp_all
  then have "student_conv fp bld st (int W) (int H) nchannels (int M) kernel_order
        = Inr (filled (\<lambda>n. f_of_d fp (case cell_of W H n of (m, w, h) \<Rightarrow> d_zero fp))
                 (\<lambda>n. [0..<n]) (M * W * H) st)"
    using assms(5) len nr[unfolded dims] by (intro student_conv_filled) simp_all
  moreover have "(\<lambda>n. f_of_d fp (case cell_of W H n of (m, w, h) \<Rightarrow> d_zero fp))
                 = (\<lambda>_. f_of_d fp (d_zero fp))"
    by (simp add: fun_eq_iff split: prod.splits)
  ultimately show ?thesis
    unfolding dims using len by (simp add: filled_const)
qed

theorem student_conv_unsupported_order_witness:
  "(2::int) \<notin> {1, 3, 5, 7} \<and> pointers_ok (two_kernel_input 2)
   \<and> \<not> data_race (OpenMP 1 NaN) 2
   \<and> student_conv ieee_fpu (OpenMP 1 NaN) (two_kernel_input 2) 1 1 1 2 2
       = Inr ((two_kernel_input 2)\<lparr>outp := (outp (two_kernel_input 2))\<lparr>cells3 :=
                  [Finite 0, Finite 0]\<rparr>, stores := [0, 1]\<rparr>)"
proof -
  have p: "pointers_ok (two_kernel_input 2)"
    by (simp add: pointers_ok_def two_kernel_input_def)
  have l: "length (cells3 (outp (two_kernel_input 2))) = nat 2 * nat 1 * nat 1"
    by (simp add: two_kernel_input_def)
  have n: "\<not> data_race (OpenMP 1 NaN) 2"
    by simp
  have z: "f_of_d ieee_fpu (d_zero ieee_fpu) = Finite 0"
    by (simp add: ieee_fpu_def round32_def round_to_def)
  have s: "stores (two_kernel_input 2) = []"
    by (simp add: two_kernel_input_def)
  have r: "replicate 2 (Finite 0) = [Finite 0, Finite 0]"
    by (simp add: numeral_2_eq_2)
  show ?thesis
    using p n student_conv_unsupported_order[where kernel_order = 2 and width = 1
        and height = 1 and nkernels = 2 and nchannels = 1 and fp = ieee_fpu, OF _ _ _ _ p l n]
    by (simp add: z s r upt_2)
qed

text \<open>
  Claim C10. Called with a kernel order outside 1, 3, 5, 7, positive dimensions and
  tensors in bounds, \<^verbatim>\<open>student_conv\<close> is to read no element and to write 0.0
  into every cell of the output. In the OpenMP build with two kernels and two threads it
  has a data race instead: the two threads share \<^verbatim>\<open>w\<close>,
  \<^verbatim>\<open>h\<close>, \<^verbatim>\<open>mo_index\<close>, \<^verbatim>\<open>w_index\<close> and
  \<^verbatim>\<open>h_index\<close>, which place the store.
\<close>

theorem unsupported_order_openmp_race:
  "(2::int) \<notin> {1, 3, 5, 7} \<and> pointers_ok (two_kernel_input 2)
   \<and> length (cells3 (outp (two_kernel_input 2))) = 2
   \<and> student_conv ieee_fpu (OpenMP 2 j) (two_kernel_input 2) 1 1 1 2 2 = Inl Data_race"
proof -
  have p: "pointers_ok (two_kernel_input 2)"
    by (simp add: pointers_ok_def two_kernel_input_def)
  have "student_conv ieee_fpu (OpenMP 2 j) (two_kernel_input 2) 1 1 1 2 2 = Inl Data_race"
    by (rule student_conv_races[OF p]) simp
  then show ?thesis
    using p by (simp add: two_kernel_input_def)
qed

section \<open>The all-ones scenario\<close>

text \<open>
  Claim C7. With \<open>width = height = nchannels = nkernels = 1\<close> and
  \<open>kernel_order = 3\<close>, an image of \<open>4 \<times> 4 \<times> 1\<close> ones and a kernel of
  \<open>1 \<times> 1 \<times> 3 \<times> 3\<close> ones, both routines return with the single output cell
  holding 9.0, in IEEE arithmetic and in both builds (the cell holds NaN before the call;
  with one kernel the parallel loop has one iteration, so no run has a data race).
  The reference stores into the cell once, as there is one channel.
\<close>

theorem all_ones_order3:
  "multichannel_conv ieee_fpu (ones_input 3) 1 1 1 1 3
     = Inr ((ones_input 3)\<lparr>outp := (outp (ones_input 3))\<lparr>cells3 := [Finite 9]\<rparr>, stores := [0]\<rparr>)
   \<and> student_conv ieee_fpu bld (ones_input 3) 1 1 1 1 3
     = Inr ((ones_input 3)\<lparr>outp := (outp (ones_input 3))\<lparr>cells3 := [Finite 9]\<rparr>, stores := [0]\<rparr>)"
proof -
  have c: "cells3 (outp (ones_input 3)) = [NaN]" "stores (ones_input 3) = []"
    by (simp_all add: ones_input_def)
  have n: "f_of_d ieee_fpu (Finite 9) = Finite 9"
    by (simp add: ieee_fpu_def)
  have "multichannel_conv ieee_fpu (ones_input 3) (int 1) (int 1) (int 1) (int 1) 3
        = Inr (filled (\<lambda>n. f_of_d ieee_fpu (case cell_of 1 1 n of (m, w, h) \<Rightarrow> Finite 9))
                 (\<lambda>n. concat (map (replicate 1) [0..<n])) (1 * 1 * 1) (ones_input 3))"
    using ones3_ref_sum
    by (intro multichannel_conv_filled) (simp_all add: ones_input_def)
  moreover have "student_conv ieee_fpu bld (ones_input 3) (int 1) (int 1) 1 (int 1) 3
        = Inr (filled (\<lambda>n. f_of_d ieee_fpu (case cell_of 1 1 n of (m, w, h) \<Rightarrow> Finite 9))
                 (\<lambda>n. [0..<n]) (1 * 1 * 1) (ones_input 3))"
    using ones3_stu_sum
    by (intro student_conv_filled) (simp_all add: ones_input_def pointers_ok_def)
  ultimately show ?thesis
    by (simp add: filled_one_cell[OF c] cell_of_def n)
qed

section \<open>Kernel order 1\<close>

text \<open>
  Built without OpenMP, the branch for \<open>kernel_order = 1\<close> is the reference's single
  multiply-accumulate per channel, and the two outputs are the same for every arithmetic.
\<close>

theorem order1_serial_same_output:
  assumes "valid_call st width height nchannels nkernels 1"
  shows "\<exists>st_ref st_stu.
           multichannel_conv fp st width height nchannels nkernels 1 = Inr st_ref
           \<and> student_conv fp Serial st width height nchannels nkernels 1 = Inr st_stu
           \<and> outp st_stu = outp st_ref"
  using assms by (intro same_output_if_same_out) (simp_all add: stu_out_same)

theorem order1_serial_same_output_witness:
  "valid_call (ones_input 1) 1 1 1 1 1
   \<and> (\<exists>st_ref st_stu.
          multichannel_conv ieee_fpu (ones_input 1) 1 1 1 1 1 = Inr st_ref
          \<and> student_conv ieee_fpu Serial (ones_input 1) 1 1 1 1 1 = Inr st_stu
          \<and> outp st_stu = outp st_ref)"
proof -
  have v: "valid_call (ones_input 1) 1 1 1 1 1"
    using valid_ones_input[of 1] by simp
  show ?thesis
    using v order1_serial_same_output[OF v, of ieee_fpu] by simp
qed

text \<open>
  Built with OpenMP, the loop of that branch adds into its private
  \<^verbatim>\<open>sum\<close>, the sum of the cell stays 0.0, and (in a run without data race
  between the threads of the loop over \<^verbatim>\<open>m\<close>) every cell of the output
  receives \<^verbatim>\<open>(float)0.0\<close>, whatever the image and the kernels hold.
\<close>

theorem order1_openmp_all_zero:
  assumes "valid_call st width height nchannels nkernels 1"
    and nr: "\<not> data_race (OpenMP t j) nkernels"
  shows "student_conv fp (OpenMP t j) st width height nchannels nkernels 1
         = Inr (st\<lparr>outp := (outp st)\<lparr>cells3 :=
                       replicate (nat nkernels * nat width * nat height) (f_of_d fp (d_zero fp))\<rparr>,
                   stores := stores st @ [0..<nat nkernels * nat width * nat height]\<rparr>)"
proof -
  have "length (cells3 (outp st)) = nat nkernels * nat width * nat height"
    using assms(1) by (simp add: valid_call_def wf3_def)
  then show ?thesis
    using student_conv_result[OF assms(1) nr, where fp = fp]
    by (simp add: stu_out_order1_openmp filled_const)
qed

theorem order1_openmp_all_zero_witness:
  "valid_call (ones_input 1) 1 1 1 1 1
   \<and> \<not> data_race (OpenMP 2 NaN) 1
   \<and> student_conv ieee_fpu (OpenMP 2 NaN) (ones_input 1) 1 1 1 1 1
       = Inr ((ones_input 1)\<lparr>outp := (outp (ones_input 1))\<lparr>cells3 := [Finite 0]\<rparr>, stores := [0]\<rparr>)"
proof -
  have v: "valid_call (ones_input 1) 1 1 1 1 1"
    using valid_ones_input[of 1] by simp
  have z: "f_of_d ieee_fpu (d_zero ieee_fpu) = Finite 0"
    by (simp add: ieee_fpu_def)
  show ?thesis
    using v order1_openmp_all_zero[OF v, where t = 2 and j = NaN and fp = ieee_fpu]
    by (simp add: z)
qed

text \<open>
  Claim C2. For \<open>kernel_order = 1\<close> the output of \<^verbatim>\<open>student_conv\<close> is to be
  the output of \<^verbatim>\<open>multichannel_conv\<close>, cell for cell. In the OpenMP build it is
  not: on the all-ones input with a single cell the reference stores 1.0 and the optimized
  routine 0.0, whatever value its private \<^verbatim>\<open>sum\<close> starts from and whatever
  the number of threads.
\<close>

theorem order1_openmp_differs:
  "multichannel_conv ieee_fpu (ones_input 1) 1 1 1 1 1
     = Inr ((ones_input 1)\<lparr>outp := (outp (ones_input 1))\<lparr>cells3 := [Finite 1]\<rparr>, stores := [0]\<rparr>)
   \<and> student_conv ieee_fpu (OpenMP t j) (ones_input 1) 1 1 1 1 1
     = Inr ((ones_input 1)\<lparr>outp := (outp (ones_input 1))\<lparr>cells3 := [Finite 0]\<rparr>, stores := [0]\<rparr>)"
proof -
  have v: "valid_call (ones_input 1) 1 1 1 1 1"
    using valid_ones_input[of 1] by simp
  have c: "cells3 (outp (ones_input (Suc 0))) = [NaN]" "stores (ones_input (Suc 0)) = []"
    by simp_all
  have r: "ref_out ieee_fpu (ones_input (Suc 0)) (Suc 0) (Suc 0) (Suc 0) (Suc 0) 0 = Finite 1"
    by (simp add: ref_out_def cell_of_def ref_val_def tap_def img_def ker_def ones_input_def
        ieee_fpu_def)
  have s: "stu_out ieee_fpu (OpenMP t j) (ones_input (Suc 0)) (Suc 0) (Suc 0) (Suc 0) (Suc 0) 0
           = Finite 0"
    by (simp add: stu_out_def cell_of_def stu_val_def ieee_fpu_def)
  show ?thesis
    using multichannel_conv_result[OF v, of ieee_fpu]
      student_conv_result[OF v, where fp = ieee_fpu and bld = "OpenMP t j"]
    by (simp add: filled_one_cell[OF c] r s)
qed

section \<open>What a call writes\<close>

text \<open>
  Neither routine writes the image or the kernels. The optimized routine, in a run without
  data race, stores into every cell of the output once, in the order of the cells; the
  reference stores into every cell once per channel, the partial sum after each channel.
\<close>

theorem stores_of_a_call:
  assumes "valid_call st width height nchannels nkernels kernel_order"
    and "\<not> data_race bld nkernels"
  shows "\<exists>st_ref st_stu.
           multichannel_conv fp st width height nchannels nkernels kernel_order = Inr st_ref
           \<and> student_conv fp bld st width height nchannels nkernels kernel_order = Inr st_stu
           \<and> image st_ref = image st \<and> kernels st_ref = kernels st
           \<and> image st_stu = image st \<and> kernels st_stu = kernels st
           \<and> stores st_stu = stores st @ [0..<nat nkernels * nat width * nat height]
           \<and> stores st_ref
               = stores st @ concat (map (replicate (nat nchannels))
                                      [0..<nat nkernels * nat width * nat height])"
  using multichannel_conv_result[OF assms(1), of fp] student_conv_result[OF assms, where fp = fp]
  by simp

theorem stores_of_a_call_witness:
  "valid_call (ones_input 7) 1 1 1 1 7
   \<and> (\<exists>st_ref st_stu.
          multichannel_conv ieee_fpu (ones_input 7) 1 1 1 1 7 = Inr st_ref
          \<and> student_conv ieee_fpu Serial (ones_input 7) 1 1 1 1 7 = Inr st_stu
          \<and> image st_ref = image (ones_input 7) \<and> kernels st_ref = kernels (ones_input 7)
          \<and> image st_stu = image (ones_input 7) \<and> kernels st_stu = kernels (ones_input 7)
          \<and> stores st_stu = [0] \<and> stores st_ref = [0])"
proof -
  have v: "valid_call (ones_input 7) 1 1 1 1 7"
    using valid_ones_input[of 7] by simp
  show ?thesis
    using v stores_of_a_call[OF v, where fp = ieee_fpu and bld = Serial] by simp
qed

text \<open>
  Claim C5. During one call the image and the kernels are never written, and each cell of
  the output is written exactly once. \<^verbatim>\<open>multichannel_conv\<close> does not keep the
  second half: with two channels (kernel order 1, a single cell, image values 2.0 and 3.0,
  kernel values 4 and 5) it stores into cell 0 twice, 8.0 after the first channel and 23.0
  after the second.
\<close>

theorem reference_stores_twice:
  "multichannel_conv ieee_fpu two_channel_input 1 1 2 1 1
     = Inr (two_channel_input\<lparr>outp := (outp two_channel_input)\<lparr>cells3 := [Finite 23]\<rparr>,
                               stores := [0, 0]\<rparr>)"
proof -
  have v: "valid_call two_channel_input 1 1 2 1 1"
    by (simp add: valid_call_def two_channel_input_def wf3_def wf4_def)
  have c: "cells3 (outp two_channel_input) = [NaN]" "stores two_channel_input = []"
    by (simp_all add: two_channel_input_def)
  have r: "ref_out ieee_fpu two_channel_input (Suc 0) (Suc 0) 2 (Suc 0) 0 = Finite 23"
    by (simp add: ref_out_def cell_of_def ref_val_def tap_def img_def ker_def
        two_channel_input_def ieee_fpu_def upt_2)
  have "replicate 2 (0::nat) = [0, 0]"
    by (simp add: numeral_2_eq_2)
  then show ?thesis
    using multichannel_conv_result[OF v, of ieee_fpu]
    by (simp add: filled_one_cell[OF c] r)
qed

section \<open>The equivalence checker\<close>

text \<open>
  Claim C3, as amended. For two tensors of the shape \<open>dim0 \<times> dim1 \<times> dim2\<close>,
  \<^verbatim>\<open>check_result\<close> forms, cell by cell in the order of the buffer, the
  \<^verbatim>\<open>float\<close> difference of control and candidate, widens it and takes
  \<^verbatim>\<open>fabs\<close>. If every such difference passes
  \<^verbatim>\<open>assert(diff >= 0.0)\<close>, it returns with their \<^verbatim>\<open>double\<close>
  sum \<open>S\<close> (the function \<open>sad\<close>, which follows the specification's formula),
  and prints the warning exactly when \<open>S > 0.0625\<close>; everything it has added to the
  sum is then at least 0.0. If some difference fails the assertion (a NaN), the program
  aborts there.
\<close>

theorem check_result_verdict:
  assumes "wf3 result" "n0 result = nat dim0" "n1 result = nat dim1" "n2 result = nat dim2"
    and "wf3 control" "n0 control = nat dim0" "n1 control = nat dim1" "n2 control = nat dim2"
  shows "check_result fp result control dim0 dim1 dim2
         = (if diffs_ok fp control result
            then Inr (sad fp control result,
                      if d_gt fp (sad fp control result) (d_epsilon fp) then Suspect else Acceptable)
            else Inl Assertion_failed)"
  using check_result_sad[OF assms, of fp] check_result_nat[of fp result control dim0 dim1 dim2]
  by simp

theorem check_result_verdict_witness:
  "wf3 \<lparr>n0 = 1, n1 = 1, n2 = 2, cells3 = [Finite 9, Finite 0]\<rparr>
   \<and> wf3 \<lparr>n0 = 1, n1 = 1, n2 = 2, cells3 = [Finite 9, Finite 1]\<rparr>
   \<and> check_result ieee_fpu \<lparr>n0 = 1, n1 = 1, n2 = 2, cells3 = [Finite 9, Finite 0]\<rparr>
         \<lparr>n0 = 1, n1 = 1, n2 = 2, cells3 = [Finite 9, Finite 1]\<rparr> 1 1 2
       = Inr (Finite 1, Suspect)"
  using check_result_verdict[of "\<lparr>n0 = 1, n1 = 1, n2 = 2, cells3 = [Finite 9, Finite 0]\<rparr>" 1 1 2
      "\<lparr>n0 = 1, n1 = 1, n2 = 2, cells3 = [Finite 9, Finite 1]\<rparr>" ieee_fpu]
  by (simp add: wf3_def diffs_ok_def sad_def abs_diff_def ieee_fpu_def)

text \<open>
  The claim as stated has the checker return normally for every pair of tensors of one
  shape. Two outputs that both overflowed to \<open>+\<infinity>\<close> in a cell are such a pair, equal
  even: their difference is NaN and the assertion fails.
\<close>

theorem check_result_aborts_on_nan:
  "check_result ieee_fpu \<lparr>n0 = 1, n1 = 1, n2 = 1, cells3 = [PlusInf]\<rparr>
     \<lparr>n0 = 1, n1 = 1, n2 = 1, cells3 = [PlusInf]\<rparr> 1 1 1
   = Inl Assertion_failed"
  using check_result_sad[of "\<lparr>n0 = 1, n1 = 1, n2 = 1, cells3 = [PlusInf]\<rparr>" 1 1 1
      "\<lparr>n0 = 1, n1 = 1, n2 = 1, cells3 = [PlusInf]\<rparr>" ieee_fpu]
  by (simp add: wf3_def diffs_ok_def abs_diff_def ieee_fpu_def)

text \<open>
  In IEEE arithmetic the assertion holds whenever all elements of both tensors are finite:
  a difference of finite numbers is a number or an infinity, never NaN.
\<close>

theorem check_result_finite_returns:
  assumes "wf3 result" "n0 result = nat dim0" "n1 result = nat dim1" "n2 result = nat dim2"
    and "wf3 control" "n0 control = nat dim0" "n1 control = nat dim1" "n2 control = nat dim2"
    and "list_all ieee_finite (cells3 result)" "list_all ieee_finite (cells3 control)"
  shows "check_result ieee_fpu result control dim0 dim1 dim2
         = Inr (sad ieee_fpu control result,
                if d_gt ieee_fpu (sad ieee_fpu control result) (d_epsilon ieee_fpu)
                then Suspect else Acceptable)"
proof -
  have "d_ge ieee_fpu (abs_diff ieee_fpu c r) (d_zero ieee_fpu)"
    if "(c, r) \<in> set (zip (cells3 control) (cells3 result))" for c r
  proof -
    have "c \<in> set (cells3 control)" "r \<in> set (cells3 result)"
      using that by (auto dest: set_zip_leftD set_zip_rightD)
    then show ?thesis
      using assms(9,10) by (intro ieee_abs_diff_finite) (simp_all add: list_all_iff)
  qed
  then have "diffs_ok ieee_fpu control result"
    unfolding diffs_ok_def list_all_iff by auto
  then show ?thesis
    using check_result_sad[OF assms(1-8), of ieee_fpu]
      check_result_nat[of ieee_fpu result control dim0 dim1 dim2]
    by simp
qed

theorem check_result_finite_returns_witness:
  "wf3 \<lparr>n0 = 1, n1 = 1, n2 = 1, cells3 = [Finite 9]\<rparr>
   \<and> list_all ieee_finite [Finite 9]
   \<and> check_result ieee_fpu \<lparr>n0 = 1, n1 = 1, n2 = 1, cells3 = [Finite 9]\<rparr>
         \<lparr>n0 = 1, n1 = 1, n2 = 1, cells3 = [Finite 9]\<rparr> 1 1 1
       = Inr (Finite 0, Acceptable)"
  using check_result_finite_returns[of "\<lparr>n0 = 1, n1 = 1, n2 = 1, cells3 = [Finite 9]\<rparr>" 1 1 1
      "\<lparr>n0 = 1, n1 = 1, n2 = 1, cells3 = [Finite 9]\<rparr>"]
  by (simp add: wf3_def sad_def abs_diff_def ieee_fpu_def)

section \<open>What the driver checks\<close>




section \<open>The sum of absolute differences between the two outputs\<close>

text \<open>
  Claim C1, as amended. Take a valid input, in IEEE arithmetic, whose image elements are
  integers of magnitude at most \<open>A\<close> and whose kernel weights are of magnitude at most
  \<open>B\<close>, with \<open>3 * A * B \<le> 2\<^sup>2\<^sup>4\<close> and
  \<open>nchannels * kernel_order\<^sup>2 * A * B \<le> 2\<^sup>5\<^sup>3\<close>; the elements the driver
  generates are such, with \<open>A = 5119\<close> and \<open>B = 1023\<close>. Then every product, every
  sum of a row in single precision and every partial sum in double precision is an
  integer its format holds, so both routines compute the exact sum of each cell, whatever
  the order of the additions. In a run without data race (the build without OpenMP, a team
  of one thread, or a single kernel), for a kernel order of 3, 5 or 7 (and for 1 in the
  build without OpenMP) both routines return, the two outputs are equal, and the checker
  returns a sum of absolute differences of 0.0, within the threshold.
\<close>

theorem integer_data_sad_zero:
  assumes v: "valid_call st width height nchannels nkernels kernel_order"
    and K: "kernel_order \<noteq> 1 \<or> bld = Serial"
    and nr: "\<not> data_race bld nkernels"
    and sm: "small_data A B st"
    and ab: "3 * (A * B) \<le> 16777216"
    and tot: "nchannels * (kernel_order * (kernel_order * (A * B))) \<le> 9007199254740992"
  shows "\<exists>st_ref st_stu.
           multichannel_conv ieee_fpu st width height nchannels nkernels kernel_order = Inr st_ref
           \<and> student_conv ieee_fpu bld st width height nchannels nkernels kernel_order = Inr st_stu
           \<and> outp st_stu = outp st_ref
           \<and> check_result ieee_fpu (outp st_stu) (outp st_ref) nkernels width height
               = Inr (Finite 0, Acceptable)"
proof -
  define W H C M Kn where "W = nat width" and "H = nat height" and "C = nat nchannels"
    and "M = nat nkernels" and "Kn = nat kernel_order"
  have sh: "shaped st W H C M Kn"
    unfolding W_def H_def C_def M_def Kn_def by (rule valid_call_shaped[OF v])
  have pos: "0 < C" "nchannels = int C" "kernel_order = int Kn"
    using v by (auto simp: valid_call_def C_def Kn_def)
  have Kn: "Kn \<in> {3, 5, 7} \<or> Kn = 1 \<and> bld = Serial"
    using v K by (auto simp: valid_call_def Kn_def)
  have tot': "int C * (int Kn * (int Kn * (A * B))) \<le> 9007199254740992"
    using tot unfolding pos(2,3) .
  have len: "length (cells3 (outp st)) = M * W * H"
    and od: "n0 (outp st) = M" "n1 (outp st) = W" "n2 (outp st) = H"
    using v by (simp_all add: valid_call_def wf3_def M_def W_def H_def)
  let ?ref = "filled (ref_out ieee_fpu st W H C Kn) (\<lambda>n. concat (map (replicate C) [0..<n])) (M * W * H) st"
  let ?stu = "filled (stu_out ieee_fpu bld st W H C Kn) (\<lambda>n. [0..<n]) (M * W * H) st"
  have ref: "multichannel_conv ieee_fpu st width height nchannels nkernels kernel_order = Inr ?ref"
    using multichannel_conv_result[OF v, of ieee_fpu]
    by (simp add: W_def H_def C_def M_def Kn_def)
  have stu: "student_conv ieee_fpu bld st width height nchannels nkernels kernel_order = Inr ?stu"
    using student_conv_result[OF v nr, where fp = ieee_fpu]
    by (simp add: W_def H_def C_def M_def Kn_def)
  have same: "outp ?stu = outp ?ref"
    by (rule outp_filled_cong) (rule exact_cells(1)[OF sm sh Kn ab tot' pos(1)])
  have cells: "cells3 (outp ?ref) = map (ref_out ieee_fpu st W H C Kn) [0..<M * W * H]"
    by (rule outp_filled_full[OF len])
  have fin: "list_all ieee_finite (cells3 (outp ?ref))"
    unfolding cells list_all_iff using exact_cells(2)[OF sm sh Kn ab tot' pos(1)] by auto
  have wf: "wf3 (outp ?ref)" "n0 (outp ?ref) = nat nkernels" "n1 (outp ?ref) = nat width"
    "n2 (outp ?ref) = nat height"
    using len od by (simp_all add: wf3_def cells M_def W_def H_def)
  have "check_result ieee_fpu (outp ?ref) (outp ?ref) nkernels width height
        = Inr (Finite 0, Acceptable)"
    using check_result_sad[of "outp ?ref" "nat nkernels" "nat width" "nat height" "outp ?ref" ieee_fpu]
      check_result_nat[of ieee_fpu "outp ?ref" "outp ?ref" nkernels width height]
      wf sad_same[OF fin]
    by (simp add: ieee_fpu_sel)
  then show ?thesis
    using ref stu same by simp
qed

theorem integer_data_sad_zero_witness:
  "valid_call driver_input 1 1 1 1 3 \<and> small_data 5119 1023 driver_input
   \<and> \<not> data_race (OpenMP 2 NaN) 1
   \<and> (3::int) * (5119 * 1023) \<le> 16777216
   \<and> (\<exists>st_ref st_stu.
          multichannel_conv ieee_fpu driver_input 1 1 1 1 3 = Inr st_ref
          \<and> student_conv ieee_fpu (OpenMP 2 NaN) driver_input 1 1 1 1 3 = Inr st_stu
          \<and> outp st_stu = outp st_ref
          \<and> check_result ieee_fpu (outp st_stu) (outp st_ref) 1 1 1 = Inr (Finite 0, Acceptable))"
proof -
  have v: "valid_call driver_input 1 1 1 1 3"
    by (simp add: valid_call_def driver_input_def wf3_def wf4_def)
  have s: "small_data 5119 1023 driver_input"
    by (simp add: small_data_def driver_input_def int_valued_def list_all_iff)
  show ?thesis
    using v s integer_data_sad_zero[OF v _ _ s, where bld = "OpenMP 2 NaN"] by simp
qed

text \<open>
  The claim as stated bounds the sum for every valid input. It fails where the two
  routines round differently. For kernel order 3 the optimized routine adds the three
  products of a kernel row in single precision: with the image row
  \<open>2\<^sup>2\<^sup>4, 1, -2\<^sup>2\<^sup>4\<close> under a kernel of ones, \<open>2\<^sup>2\<^sup>4 + 1\<close> rounds back
  to \<open>2\<^sup>2\<^sup>4\<close> and the row sums to 0.0, while the reference adds in double precision
  and stores 1.0. The checker returns the sum 1.0 and the warning.
\<close>

theorem cancel_counterexample:
  "valid_call cancel_input 1 1 1 1 3
   \<and> multichannel_conv ieee_fpu cancel_input 1 1 1 1 3
       = Inr (cancel_input\<lparr>outp := (outp cancel_input)\<lparr>cells3 := [Finite 1]\<rparr>, stores := [0]\<rparr>)
   \<and> student_conv ieee_fpu Serial cancel_input 1 1 1 1 3
       = Inr (cancel_input\<lparr>outp := (outp cancel_input)\<lparr>cells3 := [Finite 0]\<rparr>, stores := [0]\<rparr>)
   \<and> check_result ieee_fpu ((outp cancel_input)\<lparr>cells3 := [Finite 0]\<rparr>)
         ((outp cancel_input)\<lparr>cells3 := [Finite 1]\<rparr>) 1 1 1
       = Inr (Finite 1, Suspect)"
proof -
  have v: "valid_call cancel_input 1 1 1 1 3"
    by (simp add: valid_call_def cancel_input_def wf3_def wf4_def)
  have c: "cells3 (outp cancel_input) = [NaN]" "stores cancel_input = []"
    by (simp_all add: cancel_input_def)
  have r: "ref_out ieee_fpu cancel_input (Suc 0) (Suc 0) (Suc 0) 3 0 = Finite 1"
    by (simp add: ref_out_def cell_of_def ref_val_def tap_def img_def ker_def
        cancel_input_def ieee_fpu_def upt_3)
  have s: "stu_out ieee_fpu Serial cancel_input (Suc 0) (Suc 0) (Suc 0) 3 0 = Finite 0"
    by (simp add: stu_out_def cell_of_def stu_val_def row3_val_def img_def ker_def
        cancel_input_def ieee_fpu_def upt_3 round32_tie)
  have k: "check_result ieee_fpu ((outp cancel_input)\<lparr>cells3 := [Finite 0]\<rparr>)
         ((outp cancel_input)\<lparr>cells3 := [Finite 1]\<rparr>) (int 1) (int 1) (int 1)
       = Inr (Finite 1, Suspect)"
    using check_result_sad[of "(outp cancel_input)\<lparr>cells3 := [Finite 0]\<rparr>" 1 1 1
        "(outp cancel_input)\<lparr>cells3 := [Finite 1]\<rparr>" ieee_fpu]
    by (simp add: cancel_input_def wf3_def diffs_ok_def sad_def abs_diff_def ieee_fpu_def)
  show ?thesis
    using v k multichannel_conv_result[OF v, of ieee_fpu]
      student_conv_result[OF v, where fp = ieee_fpu and bld = Serial]
    by (simp add: filled_one_cell[OF c] r s)
qed

section \<open>What a cell of the reference depends on\<close>

text \<open>
  Claim C8, as amended. On a valid call of \<^verbatim>\<open>multichannel_conv\<close>, the cell
  \<open>(m, w, h)\<close> of the output is the narrowed sum \<open>ref_val\<close> over its window, so
  that two valid inputs which agree on \<^verbatim>\<open>image[w+x][h+y][c]\<close> and
  \<^verbatim>\<open>kernels[m][c][x][y]\<close> for every \<open>c < nchannels\<close> and
  \<open>x, y < kernel_order\<close> give the same value in that cell, in any arithmetic. In IEEE
  arithmetic, renumbering the channels of the image and of the kernels by the same
  permutation leaves the whole output unchanged when the sums are exact: when the image
  holds integers of magnitude at most \<open>A\<close> and the weights have magnitude at most
  \<open>B\<close>, with \<open>A * B \<le> 2\<^sup>2\<^sup>4\<close> and
  \<open>nchannels * kernel_order\<^sup>2 * A * B \<le> 2\<^sup>5\<^sup>3\<close>.
\<close>

theorem reference_window_and_channel_order:
  assumes "valid_call st width height nchannels nkernels kernel_order"
  shows "(\<forall>st' m w h.
            valid_call st' width height nchannels nkernels kernel_order
            \<and> m < nat nkernels \<and> w < nat width \<and> h < nat height
            \<and> same_window st st' (nat nchannels) (nat kernel_order) m w h
            \<longrightarrow> (\<exists>r r'.
                   multichannel_conv fp st width height nchannels nkernels kernel_order = Inr r
                   \<and> multichannel_conv fp st' width height nchannels nkernels kernel_order = Inr r'
                   \<and> at3 (outp r) (int m) (int w) (int h)
                       = Inr (f_of_d fp (ref_val fp st (nat nchannels) (nat kernel_order) m w h))
                   \<and> at3 (outp r') (int m) (int w) (int h) = at3 (outp r) (int m) (int w) (int h)))
         \<and> (\<forall>p A B.
               small_data A B st \<and> A * B \<le> 16777216
               \<and> nchannels * (kernel_order * (kernel_order * (A * B))) \<le> 9007199254740992
               \<and> bij_betw p {..<nat nchannels} {..<nat nchannels}
               \<longrightarrow> (\<exists>r r'.
                      multichannel_conv ieee_fpu st width height nchannels nkernels kernel_order
                        = Inr r
                      \<and> multichannel_conv ieee_fpu (permute_channels p st)
                            width height nchannels nkernels kernel_order = Inr r'
                      \<and> outp r' = outp r))"
  using window_dependence[OF assms, of _ _ _ _ fp] channel_permutation_exact[OF assms]
  by blast

theorem reference_window_and_channel_order_witness:
  "valid_call two_channel_input 1 1 2 1 1
   \<and> valid_call two_channel_padded 1 1 2 1 1
   \<and> same_window two_channel_input two_channel_padded 2 1 0 0 0
   \<and> (\<exists>r r'. multichannel_conv ieee_fpu two_channel_input 1 1 2 1 1 = Inr r
          \<and> multichannel_conv ieee_fpu two_channel_padded 1 1 2 1 1 = Inr r'
          \<and> at3 (outp r) 0 0 0 = Inr (f_of_d ieee_fpu (ref_val ieee_fpu two_channel_input 2 1 0 0 0))
          \<and> at3 (outp r') 0 0 0 = at3 (outp r) 0 0 0)
   \<and> small_data 3 5 two_channel_input
   \<and> bij_betw (swap_idx 0 1) {..<2} {..<2}
   \<and> (\<exists>r r'. multichannel_conv ieee_fpu two_channel_input 1 1 2 1 1 = Inr r
          \<and> multichannel_conv ieee_fpu (permute_channels (swap_idx 0 1) two_channel_input)
                1 1 2 1 1 = Inr r'
          \<and> outp r' = outp r)"
proof -
  have v: "valid_call two_channel_input 1 1 2 1 1"
    by (simp add: valid_call_def two_channel_input_def wf3_def wf4_def)
  have v': "valid_call two_channel_padded 1 1 2 1 1"
    by (simp add: valid_call_def two_channel_padded_def wf3_def wf4_def)
  have sw: "same_window two_channel_input two_channel_padded 2 1 0 0 0"
    by (simp add: same_window_def less_2_cases_iff img_def ker_def flat3_def flat4_def
        two_channel_input_def two_channel_padded_def)
  have sm: "small_data 3 5 two_channel_input"
    by (simp add: small_data_def two_channel_input_def int_valued_def ieee_int_def)
  have b: "bij_betw (swap_idx 0 1) {..<2} {..<2}"
    using swap_idx_bij[of 0 2 1] by simp
  note T = reference_window_and_channel_order[OF v, of ieee_fpu]
  from T have P1: "\<exists>r r'. multichannel_conv ieee_fpu two_channel_input 1 1 2 1 1 = Inr r
          \<and> multichannel_conv ieee_fpu two_channel_padded 1 1 2 1 1 = Inr r'
          \<and> at3 (outp r) 0 0 0 = Inr (f_of_d ieee_fpu (ref_val ieee_fpu two_channel_input 2 1 0 0 0))
          \<and> at3 (outp r') 0 0 0 = at3 (outp r) 0 0 0"
    using v' sw by (elim conjE allE[of _ two_channel_padded] allE[of _ "0::nat"]) simp
  from T have P2: "\<exists>r r'. multichannel_conv ieee_fpu two_channel_input 1 1 2 1 1 = Inr r
          \<and> multichannel_conv ieee_fpu (permute_channels (swap_idx 0 1) two_channel_input)
                1 1 2 1 1 = Inr r'
          \<and> outp r' = outp r"
    using sm b by (elim conjE allE[of _ "swap_idx 0 1"] allE[of _ "3::int"] allE[of _ "5::int"]) simp
  show ?thesis
    using v v' sw sm b P1 P2 by blast
qed

text \<open>
  Without the bound the order of the channels shows in the result, because the
  \<^verbatim>\<open>double\<close> additions round: with the three channels \<open>2\<^sup>5\<^sup>3\<close>,
  \<open>- 2\<^sup>5\<^sup>3\<close>, 1 and all weights 1 the cell is 1.0, and after exchanging
  channels 1 and 2 it is 0.0, since \<open>2\<^sup>5\<^sup>3 + 1\<close> rounds to
  \<open>2\<^sup>5\<^sup>3\<close>.
\<close>

theorem channel_order_counterexample:
  "valid_call absorb_input 1 1 3 1 1
   \<and> bij_betw (swap_idx 1 2) {..<3} {..<3}
   \<and> multichannel_conv ieee_fpu absorb_input 1 1 3 1 1
       = Inr (absorb_input\<lparr>outp := (outp absorb_input)\<lparr>cells3 := [Finite 1]\<rparr>,
                           stores := [0, 0, 0]\<rparr>)
   \<and> multichannel_conv ieee_fpu (permute_channels (swap_idx 1 2) absorb_input) 1 1 3 1 1
       = Inr ((permute_channels (swap_idx 1 2) absorb_input)
                \<lparr>outp := (outp absorb_input)\<lparr>cells3 := [Finite 0]\<rparr>, stores := [0, 0, 0]\<rparr>)"
proof -
  define q where "q = swap_idx 1 2"
  let ?p = "permute_channels q absorb_input"
  have v: "valid_call absorb_input 1 1 3 1 1"
    by (rule absorb_valid)
  have v': "valid_call ?p 1 1 3 1 1"
    using v by (simp add: permute_valid)
  have b: "bij_betw q {..<3} {..<3}"
    unfolding q_def using swap_idx_bij[of 1 3 2] by simp
  have q: "q 0 = 0" "q (Suc 0) = 2" "q 2 = Suc 0"
    by (simp_all add: q_def swap_idx_def)
  have c: "cells3 (outp absorb_input) = [NaN]" "stores absorb_input = []"
    by (simp_all add: absorb_input_def)
  have c': "cells3 (outp ?p) = [NaN]" "stores ?p = []"
    by (simp_all add: absorb_input_def)
  have i: "img absorb_input 0 0 0 = Finite 9007199254740992"
    "img absorb_input 0 0 (Suc 0) = Finite (- 9007199254740992)"
    "img absorb_input 0 0 2 = Finite 1"
    by (simp_all add: img_def absorb_input_def)
  have k: "ker absorb_input 0 0 0 0 = 1" "ker absorb_input 0 (Suc 0) 0 0 = 1"
    "ker absorb_input 0 2 0 0 = 1"
    by (simp_all add: ker_def absorb_input_def)
  have w: "wf3 (image absorb_input)" "wf4 (kernels absorb_input)"
    "n0 (image absorb_input) = 2" "n1 (image absorb_input) = 2" "n2 (image absorb_input) = 3"
    "k0 (kernels absorb_input) = 1" "k1 (kernels absorb_input) = 3"
    "k2 (kernels absorb_input) = 1" "k3 (kernels absorb_input) = 1"
    by (simp_all add: absorb_input_def wf3_def wf4_def)
  have i': "img ?p 0 0 0 = Finite 9007199254740992" "img ?p 0 0 (Suc 0) = Finite 1"
    "img ?p 0 0 2 = Finite (- 9007199254740992)"
    using img_permute[OF w(1), of 0 0 0 q]
      img_permute[OF w(1), of 0 0 1 q]
      img_permute[OF w(1), of 0 0 2 q]
    by (simp_all add: w i q)
  have k': "ker ?p 0 0 0 0 = 1" "ker ?p 0 (Suc 0) 0 0 = 1" "ker ?p 0 2 0 0 = 1"
    using ker_permute[OF w(2), of 0 0 0 0 q]
      ker_permute[OF w(2), of 0 1 0 0 q]
      ker_permute[OF w(2), of 0 2 0 0 q]
    by (simp_all add: w k q)
  have r: "ref_out ieee_fpu absorb_input (Suc 0) (Suc 0) 3 (Suc 0) 0 = Finite 1"
    by (simp add: ref_out_def cell_of_def ref_val_def tap_def i k ieee_fpu_def upt_3
        round32_two53)
  have r': "ref_out ieee_fpu ?p (Suc 0) (Suc 0) 3 (Suc 0) 0 = Finite 0"
    by (simp add: ref_out_def cell_of_def ref_val_def tap_def i' k' ieee_fpu_def upt_3
        round32_two53 round64_absorbs)
  have l: "replicate 3 (0::nat) = [0, 0, 0]"
    by (simp add: numeral_3_eq_3)
  have "multichannel_conv ieee_fpu absorb_input 1 1 3 1 1
       = Inr (absorb_input\<lparr>outp := (outp absorb_input)\<lparr>cells3 := [Finite 1]\<rparr>,
                           stores := [0, 0, 0]\<rparr>)"
    using multichannel_conv_result[OF v, of ieee_fpu] l
    by (simp add: filled_one_cell[OF c] r)
  moreover have "multichannel_conv ieee_fpu ?p 1 1 3 1 1
       = Inr (?p\<lparr>outp := (outp absorb_input)\<lparr>cells3 := [Finite 0]\<rparr>, stores := [0, 0, 0]\<rparr>)"
    using multichannel_conv_result[OF v', of ieee_fpu] l
    by (simp add: filled_one_cell[OF c'] r')
  ultimately show ?thesis
    using v b unfolding q_def by simp
qed

section \<open>The precision of the optimized routine\<close>

text \<open>
  Claim C4, as amended. On a valid call of \<^verbatim>\<open>student_conv\<close> in a run
  without data race (the build without OpenMP, a team of one thread, or a single kernel),
  read in the term interpretation with an image of atoms, the routine returns and every
  cell of the output holds a term that is narrowed once, at the store
  (\<open>order_policy\<close>). For kernel orders 1 and 7 the narrowed term is a sum formed by
  \<^verbatim>\<open>double\<close> additions only, of widened \<^verbatim>\<open>float\<close> products of an
  image element and a weight converted to \<^verbatim>\<open>float\<close>. For kernel order 5 it
  is a sum formed by \<^verbatim>\<open>double\<close> additions only, of \<^verbatim>\<open>double\<close>
  products of a widened image element and a weight converted to \<^verbatim>\<open>double\<close>.
  For kernel order 3 it is a \<^verbatim>\<open>double\<close> sum of row sums, where the three
  \<^verbatim>\<open>float\<close> products of a kernel row are added in \<^verbatim>\<open>float\<close>
  before they are widened. So for kernel orders 1, 5 and 7 the cell is a
  \<^verbatim>\<open>double\<close> sum of promoted products (\<open>precision_policy\<close>).
\<close>

theorem student_conv_precision:
  assumes "valid_call st width height nchannels nkernels kernel_order"
    and "\<not> data_race bld nkernels"
    and "list_all atom (cells3 (image st))"
  shows "\<exists>r. student_conv term_fpu bld st width height nchannels nkernels kernel_order = Inr r
           \<and> list_all (order_policy kernel_order) (cells3 (outp r))
           \<and> (kernel_order \<noteq> 3 \<longrightarrow> list_all precision_policy (cells3 (outp r)))"
proof -
  define W H C M K where "W = nat width" and "H = nat height" and "C = nat nchannels"
    and "M = nat nkernels" and "K = nat kernel_order"
  have sh: "shaped st W H C M K"
    unfolding W_def H_def C_def M_def K_def by (rule valid_call_shaped[OF assms(1)])
  have K: "K \<in> {1, 3, 5, 7}" "kernel_order = int K"
    using assms(1) by (auto simp: valid_call_def K_def)
  have len: "length (cells3 (outp st)) = M * W * H"
    using assms(1) by (simp add: valid_call_def wf3_def M_def W_def H_def)
  have "student_conv term_fpu bld st width height nchannels nkernels kernel_order
        = Inr (filled (stu_out term_fpu bld st W H C K) (\<lambda>n. [0..<n]) (M * W * H) st)"
    using student_conv_result[OF assms(1,2), where fp = term_fpu]
    by (simp add: W_def H_def C_def M_def K_def)
  moreover have "list_all (order_policy kernel_order) (map (stu_out term_fpu bld st W H C K)
                    [0..<M * W * H])"
    unfolding K(2) using stu_out_policy(1)[OF sh assms(3) K(1)] by (simp add: list_all_iff)
  moreover have "list_all precision_policy (map (stu_out term_fpu bld st W H C K)
                    [0..<M * W * H])" if "kernel_order \<noteq> 3"
  proof -
    have "K \<noteq> 3" using that K(2) by simp
    then show ?thesis
      using stu_out_policy(2)[OF sh assms(3) K(1)] by (simp add: list_all_iff)
  qed
  ultimately show ?thesis
    by (simp add: outp_filled_full[OF len])
qed

theorem student_conv_precision_witness:
  "valid_call (elem_input 5) 1 1 1 1 5
   \<and> \<not> data_race (OpenMP 2 D_zero) 1
   \<and> list_all atom (cells3 (image (elem_input 5)))
   \<and> (\<exists>r. student_conv term_fpu (OpenMP 2 D_zero) (elem_input 5) 1 1 1 1 5 = Inr r
          \<and> list_all double_products_policy (cells3 (outp r))
          \<and> list_all precision_policy (cells3 (outp r)))
   \<and> valid_call (elem_input 3) 1 1 1 1 3
   \<and> list_all atom (cells3 (image (elem_input 3)))
   \<and> (\<exists>r. student_conv term_fpu Serial (elem_input 3) 1 1 1 1 3 = Inr r
          \<and> list_all float_rows_policy (cells3 (outp r)))"
proof -
  have v5: "valid_call (elem_input 5) 1 1 1 1 5"
    using valid_elem_input[of 5] by simp
  have v3: "valid_call (elem_input 3) 1 1 1 1 3"
    using valid_elem_input[of 3] by simp
  have n: "\<not> data_race (OpenMP 2 D_zero) 1" "\<not> data_race (Serial :: expr build) 1"
    by simp_all
  show ?thesis
    using v5 v3 n(1) atom_elem_input[of 5] atom_elem_input[of 3]
      student_conv_precision[OF v5 n(1) atom_elem_input]
      student_conv_precision[OF v3 n(2) atom_elem_input]
    by (simp add: order_policy_def)
qed

text \<open>
  For kernel order 3 the sum is not kept in \<^verbatim>\<open>double\<close> throughout: on the
  \<open>4 \<times> 4\<close> image of atoms the stored term adds the products of each kernel row with
  \<open>F_add\<close>, the \<^verbatim>\<open>float\<close> addition of \<^verbatim>\<open>_mm_dp_ps\<close>.
\<close>

theorem order3_row_sum_in_float:
  "valid_call (elem_input 3) 1 1 1 1 3
   \<and> student_conv term_fpu Serial (elem_input 3) 1 1 1 1 3
       = Inr ((elem_input 3)\<lparr>outp := (outp (elem_input 3))\<lparr>cells3 :=
           [F_of_d
              (D_add
                 (D_add
                    (D_add D_zero
                       (D_of_f
                          (F_add
                             (F_add (F_mul (F_mul (Elem 0) (F_of_i16 0)) F_one)
                                    (F_mul (F_mul (Elem 1) (F_of_i16 1)) F_one))
                             (F_add (F_mul (F_mul (Elem 2) (F_of_i16 2)) F_one) F_zero))))
                    (D_of_f
                       (F_add
                          (F_add (F_mul (F_mul (Elem 4) (F_of_i16 3)) F_one)
                                 (F_mul (F_mul (Elem 5) (F_of_i16 4)) F_one))
                          (F_add (F_mul (F_mul (Elem 6) (F_of_i16 5)) F_one) F_zero))))
                 (D_of_f
                    (F_add
                       (F_add (F_mul (F_mul (Elem 8) (F_of_i16 6)) F_one)
                              (F_mul (F_mul (Elem 9) (F_of_i16 7)) F_one))
                       (F_add (F_mul (F_mul (Elem 10) (F_of_i16 8)) F_one) F_zero))))]\<rparr>,
          stores := [0]\<rparr>)
   \<and> \<not> precision_policy
        (F_of_d
           (D_add
              (D_add
                 (D_add D_zero
                    (D_of_f
                       (F_add
                          (F_add (F_mul (F_mul (Elem 0) (F_of_i16 0)) F_one)
                                 (F_mul (F_mul (Elem 1) (F_of_i16 1)) F_one))
                          (F_add (F_mul (F_mul (Elem 2) (F_of_i16 2)) F_one) F_zero))))
                 (D_of_f
                    (F_add
                       (F_add (F_mul (F_mul (Elem 4) (F_of_i16 3)) F_one)
                              (F_mul (F_mul (Elem 5) (F_of_i16 4)) F_one))
                       (F_add (F_mul (F_mul (Elem 6) (F_of_i16 5)) F_one) F_zero))))
              (D_of_f
                 (F_add
                    (F_add (F_mul (F_mul (Elem 8) (F_of_i16 6)) F_one)
                           (F_mul (F_mul (Elem 9) (F_of_i16 7)) F_one))
                    (F_add (F_mul (F_mul (Elem 10) (F_of_i16 8)) F_one) F_zero)))))"
proof -
  have v: "valid_call (elem_input 3) 1 1 1 1 3"
    using valid_elem_input[of 3] by simp
  have c: "cells3 (outp (elem_input 3)) = [F_zero]" "stores (elem_input 3) = []"
    by (simp_all add: elem_input_def)
  have s: "stu_out term_fpu Serial (elem_input 3) (Suc 0) (Suc 0) (Suc 0) 3 0
           = F_of_d
              (D_add
                 (D_add
                    (D_add D_zero
                       (D_of_f
                          (F_add
                             (F_add (F_mul (F_mul (Elem 0) (F_of_i16 0)) F_one)
                                    (F_mul (F_mul (Elem 1) (F_of_i16 1)) F_one))
                             (F_add (F_mul (F_mul (Elem 2) (F_of_i16 2)) F_one) F_zero))))
                    (D_of_f
                       (F_add
                          (F_add (F_mul (F_mul (Elem 4) (F_of_i16 3)) F_one)
                                 (F_mul (F_mul (Elem 5) (F_of_i16 4)) F_one))
                          (F_add (F_mul (F_mul (Elem 6) (F_of_i16 5)) F_one) F_zero))))
                 (D_of_f
                    (F_add
                       (F_add (F_mul (F_mul (Elem 8) (F_of_i16 6)) F_one)
                              (F_mul (F_mul (Elem 9) (F_of_i16 7)) F_one))
                       (F_add (F_mul (F_mul (Elem 10) (F_of_i16 8)) F_one) F_zero))))"
    by (simp add: stu_out_def cell_of_def stu_val_def row3_val_def img_def ker_def
        elem_input_def term_fpu_def upt_3)
  show ?thesis
    using v student_conv_result[OF v, where fp = term_fpu and bld = Serial]
    by (simp add: filled_one_cell[OF c] s promoted_product_def widened_float_product_def
        double_product_def float_product_def)
qed

end
